theory Spec2Isabelle
  imports Complex_Main "HOL-Library.Char_ord" "HOL-Library.List_Lexorder" "HOL-Library.AList"
    "HOL-Library.Multiset" "HOL-Library.Log_Nat"
begin

section \<open>Data model\<close>

text \<open>
  The two interfaces of the page component. A clip object is never mutated in place
  (retagging builds a fresh object with the spread operator), so an object is modelled
  by its value. Both interfaces have fields \<open>id\<close> and \<open>duration\<close>; the record
  fields carry the prefix of their interface. The optional \<open>file\<close> of a clip is the byte
  content \<open>fetchFile\<close> reads from it. The records leave the number type of
  \<open>duration\<close> open, since the code only adds durations, starting from zero; the
  numbers of the source are the type \<open>double\<close> below.
\<close>

datatype ClipType = Hook | SellingPoint | Cta

type_synonym bytes = "nat list"

record 'd VideoClip =
  clip_id :: string
  clip_name :: string
  clip_duration :: 'd
  clip_type :: ClipType
  clip_file :: "bytes option"

record 'd Sequence =
  seq_id :: string
  seq_clips :: "'d VideoClip list"
  seq_duration :: 'd

text \<open>
  What the user gets to see: toasts, console errors and downloads. A download is either
  one video or the archive, a list of named entries.
\<close>

datatype error =
    MissingSource string \<comment> \<open>\<open>new Error(`Missing file for clip: ${clip.name}`)\<close>\<close>
  | EngineError string \<comment> \<open>a rejected call of the engine\<close>

datatype payload = Video bytes | Archive "(string \<times> bytes) list"

datatype event =
    ToastSuccess string
  | ToastError string
  | ConsoleError string error
  | Download string payload

text \<open>
  Modelled from the spec: the media engine (the \<open>FFmpeg\<close> class of an external package).
  Its working area holds named byte blobs, with write, read and delete; one invocation
  runs a command line on the working area and either fails or leaves a new working
  area. What a command line does is the parameter \<open>engine_run\<close>; \<open>execs\<close> records the
  command lines the instance has been asked to run. Writing a name again replaces its
  blob, reading an absent name fails, deleting an absent name changes nothing.
\<close>

record FFmpeg =
  files :: "(string \<times> bytes) list"
  execs :: "string list list"

type_synonym engine_run = "string list \<Rightarrow> (string \<times> bytes) list \<Rightarrow> (string \<times> bytes) list option"

definition writeFile :: "string \<Rightarrow> bytes \<Rightarrow> FFmpeg \<Rightarrow> FFmpeg" where
  "writeFile path data eng = eng\<lparr>files := AList.update path data (files eng)\<rparr>"

definition readFile :: "string \<Rightarrow> FFmpeg \<Rightarrow> bytes option" where
  "readFile path eng = map_of (files eng) path"

definition deleteFile :: "string \<Rightarrow> FFmpeg \<Rightarrow> FFmpeg" where
  "deleteFile path eng = eng\<lparr>files := AList.delete path (files eng)\<rparr>"

definition exec :: "engine_run \<Rightarrow> string list \<Rightarrow> FFmpeg \<Rightarrow> (error + unit) \<times> FFmpeg" where
  "exec run args eng =
     (case run args (files eng) of
        None \<Rightarrow> (Inl (EngineError ''exec''), eng\<lparr>execs := execs eng @ [args]\<rparr>)
      | Some fs \<Rightarrow> (Inr (), eng\<lparr>files := fs, execs := execs eng @ [args]\<rparr>))"

text \<open>The state hooks of the component, and the log of what the user has been shown.\<close>

record 'd state =
  sequences :: "'d Sequence list"
  loading :: bool
  ffmpegLoading :: bool
  availableClips :: "'d VideoClip list"
  ffmpeg :: "FFmpeg option"
  events :: "event list"

definition emit :: "event \<Rightarrow> 'd state \<Rightarrow> 'd state" where
  "emit e st = st\<lparr>events := events st @ [e]\<rparr>"

section \<open>Numbers of the host language\<close>

text \<open>
  A number of the source is an IEEE-754 double: a finite value (a rational that 53 bits
  of mantissa represent), an infinity, or not-a-number. \<open>round_double\<close> rounds a
  rational to the nearest double, ties to the even mantissa, with the subnormal spacing
  \<open>2^-1074\<close> at the bottom and overflow to infinity from \<open>2^1024\<close> on.
  Addition is the exact sum, rounded. The sign of zero is not modelled.
\<close>

datatype double = Fin rat | PosInf | NegInf | NaN

definition pow2 :: "int \<Rightarrow> rat" where
  "pow2 e = (if 0 \<le> e then 2 ^ nat e else 1 / 2 ^ nat (- e))"

text \<open>For positive \<open>x\<close>, the exponent \<open>e\<close> with \<open>2^e \<le> x < 2^(e+1)\<close>.\<close>

definition binade :: "rat \<Rightarrow> int" where
  "binade x =
     (let d = bitlen (fst (quotient_of x)) - bitlen (snd (quotient_of x))
      in if pow2 d \<le> x then d else d - 1)"

definition round_even :: "rat \<Rightarrow> int" where
  "round_even x =
     (let f = \<lfloor>x\<rfloor>; r = x - of_int f
      in if r < 1 / 2 then f else if 1 / 2 < r then f + 1 else if even f then f else f + 1)"

definition round_double :: "rat \<Rightarrow> double" where
  "round_double x =
     (if x = 0 then Fin 0
      else
        (let a = \<bar>x\<bar>;
             u = pow2 (max (binade a - 52) (- 1074));
             r = of_int (round_even (a / u)) * u
         in if 1024 \<le> binade r then (if 0 < x then PosInf else NegInf)
            else Fin (if 0 < x then r else - r)))"

instantiation double :: "{plus, zero}"
begin

definition zero_double :: double where
  "zero_double = Fin 0"

definition plus_double :: "double \<Rightarrow> double \<Rightarrow> double" where
  "plus_double a b =
     (case (a, b) of
        (Fin x, Fin y) \<Rightarrow> round_double (x + y)
      | (NaN, y) \<Rightarrow> NaN
      | (x, NaN) \<Rightarrow> NaN
      | (PosInf, NegInf) \<Rightarrow> NaN
      | (NegInf, PosInf) \<Rightarrow> NaN
      | (PosInf, y) \<Rightarrow> PosInf
      | (NegInf, y) \<Rightarrow> NegInf
      | (x, PosInf) \<Rightarrow> PosInf
      | (x, NegInf) \<Rightarrow> NegInf)"

instance ..

end

section \<open>String helpers of the host language\<close>

text \<open>Decimal rendering of a number inside a template literal.\<close>

fun string_of_nat :: "nat \<Rightarrow> string" where
  "string_of_nat n =
     (if n < 10 then [char_of (48 + n)]
      else string_of_nat (n div 10) @ [char_of (48 + n mod 10)])"

text \<open>\<open>Array.prototype.join\<close>.\<close>

fun join :: "string \<Rightarrow> string list \<Rightarrow> string" where
  "join sep [] = []"
| "join sep [x] = x"
| "join sep (x # y # ys) = x @ sep @ join sep (y # ys)"

section \<open>The random source\<close>

text \<open>
  One pass of the generation loop calls \<open>Math.random\<close> for the hook, for the CTA, for
  the number of selling points, and inside the comparator of the shuffling sort. A
  \<open>draw\<close> holds the outcome of these choices as natural numbers; the random source of
  one run of the generator is the sequence of its draws, \<open>nat \<Rightarrow> draw\<close>.
\<close>

record draw =
  hookDraw :: nat
  ctaDraw :: nat
  countDraw :: nat
  shuffleDraw :: nat

text \<open>
  \<open>xs[Math.floor(Math.random() * xs.length)]\<close>: any index below the length. The
  source calls it on non-empty arrays only.
\<close>

definition pick :: "nat \<Rightarrow> 'a list \<Rightarrow> 'a" where
  "pick r xs = xs ! (r mod length xs)"

text \<open>
  \<open>[...xs].sort(() => Math.random() - 0.5)\<close>: sorting a copy with a comparator that
  answers at random yields some rearrangement of the copy. The number \<open>k\<close> selects the
  rearrangement: its digits in the factorial number system say which remaining element
  comes next.
\<close>

fun random_sort :: "nat \<Rightarrow> 'a list \<Rightarrow> 'a list" where
  "random_sort k [] = []"
| "random_sort k (x # xs) =
     (let ys = x # xs; i = k mod length ys
      in ys ! i # random_sort (k div length ys) (take i ys @ drop (Suc i) ys))"

section \<open>Sequence generation\<close>

text \<open>The choices of one pass of the loop in \<open>generateSequences\<close>.\<close>

definition numSellingPoints :: "draw \<Rightarrow> 'a list \<Rightarrow> nat" where
  "numSellingPoints d sellingPoints = min (countDraw d mod 3 + 1) (length sellingPoints)"

definition shuffledSellingPoints :: "draw \<Rightarrow> 'a list \<Rightarrow> 'a list" where
  "shuffledSellingPoints d sellingPoints =
     take (numSellingPoints d sellingPoints) (random_sort (shuffleDraw d) sellingPoints)"

definition combinationKey ::
  "'d VideoClip \<Rightarrow> 'd VideoClip list \<Rightarrow> 'd VideoClip \<Rightarrow> string" where
  "combinationKey selectedHook shuffled selectedCTA =
     join ''|'' ([clip_id selectedHook] @ sort (map clip_id shuffled) @ [clip_id selectedCTA])"

definition totalDuration :: "('d::{plus,zero}) VideoClip list \<Rightarrow> 'd" where
  "totalDuration sequenceClips = foldl (\<lambda>acc clip. acc + clip_duration clip) 0 sequenceClips"

text \<open>
  The \<open>while\<close> loop of \<open>generateSequences\<close>. Nothing bounds the number of passes, so
  the loop is a partial function: \<open>None\<close> is a run that never leaves the loop. Pass
  \<open>i\<close> reads draw \<open>i\<close> of the random source.
\<close>

partial_function (option) generate_loop ::
  "('d::{plus,zero}) VideoClip list \<Rightarrow> 'd VideoClip list \<Rightarrow> 'd VideoClip list \<Rightarrow> nat \<Rightarrow>
   (nat \<Rightarrow> draw) \<Rightarrow> nat \<Rightarrow> string set \<Rightarrow> 'd Sequence list \<Rightarrow> 'd Sequence list option"
where
  "generate_loop hooks sellingPoints ctas numSequences rnd i usedCombinations newSequences =
     (if length newSequences < numSequences then
        (let selectedHook = pick (hookDraw (rnd i)) hooks;
             selectedCTA = pick (ctaDraw (rnd i)) ctas;
             shuffled = shuffledSellingPoints (rnd i) sellingPoints;
             key = combinationKey selectedHook shuffled selectedCTA
         in if key \<notin> usedCombinations then
              (let sequenceClips = [selectedHook] @ shuffled @ [selectedCTA]
               in generate_loop hooks sellingPoints ctas numSequences rnd (Suc i)
                    (insert key usedCombinations)
                    (newSequences @
                      [\<lparr>seq_id = ''sequence-'' @ string_of_nat (length newSequences + 1),
                        seq_clips = sequenceClips,
                        seq_duration = totalDuration sequenceClips\<rparr>]))
            else generate_loop hooks sellingPoints ctas numSequences rnd (Suc i)
                   usedCombinations newSequences)
      else Some newSequences)"

declare generate_loop.simps [code]

text \<open>\<open>generateSequences\<close>: the two guards, the loop, and the new sequence list.\<close>

definition clipsOfType :: "ClipType \<Rightarrow> 'd VideoClip list \<Rightarrow> 'd VideoClip list" where
  "clipsOfType t clips = filter (\<lambda>clip. clip_type clip = t) clips"

definition maxCombinations ::
  "'d VideoClip list \<Rightarrow> 'd VideoClip list \<Rightarrow> 'd VideoClip list \<Rightarrow> nat" where
  "maxCombinations hooks sellingPoints ctas =
     length hooks * length ctas * 2 ^ length sellingPoints"

definition numSequences ::
  "'d VideoClip list \<Rightarrow> 'd VideoClip list \<Rightarrow> 'd VideoClip list \<Rightarrow> nat" where
  "numSequences hooks sellingPoints ctas = min 10 (maxCombinations hooks sellingPoints ctas)"

definition generateSequences :: "(nat \<Rightarrow> draw) \<Rightarrow> ('d::{plus,zero}) state \<Rightarrow> 'd state option" where
  "generateSequences rnd st =
     (if length (availableClips st) = 0 then
        Some (emit (ToastError ''Please upload some video clips first'') st)
      else
        (let hooks = clipsOfType Hook (availableClips st);
             sellingPoints = clipsOfType SellingPoint (availableClips st);
             ctas = clipsOfType Cta (availableClips st)
         in if length hooks = 0 \<or> length ctas = 0 then
              Some (emit (ToastError ''You need at least one hook and one CTA clip'') st)
            else
              (case generate_loop hooks sellingPoints ctas
                      (numSequences hooks sellingPoints ctas) rnd 0 {} [] of
                 None \<Rightarrow> None
               | Some newSequences \<Rightarrow>
                   Some (emit (ToastSuccess (''Generated '' @ string_of_nat (length newSequences)
                                 @ '' unique sequences!''))
                           (st\<lparr>sequences := newSequences, loading := False\<rparr>)))))"

section \<open>Clip catalog\<close>

definition updateClipType :: "string \<Rightarrow> ClipType \<Rightarrow> 'd state \<Rightarrow> 'd state" where
  "updateClipType clipId newType st =
     st\<lparr>availableClips :=
          map (\<lambda>clip. if clip_id clip = clipId then clip\<lparr>clip_type := newType\<rparr> else clip)
            (availableClips st)\<rparr>"

section \<open>Export\<close>

text \<open>\<open>!index\<close> for an optional number: true for \<open>undefined\<close> and for \<open>0\<close>.\<close>

definition not_index :: "nat option \<Rightarrow> bool" where
  "not_index index = (index = None \<or> index = Some 0)"

definition input_name :: "nat \<Rightarrow> string" where
  "input_name i = ''input'' @ string_of_nat i @ ''.mp4''"

text \<open>
  The first \<open>for\<close> loop of \<open>exportSequence\<close>: registers the clips from position \<open>i\<close> on
  and extends the manifest; throws at the first clip without a file.
\<close>

fun write_inputs ::
  "nat \<Rightarrow> 'd VideoClip list \<Rightarrow> string \<Rightarrow> FFmpeg \<Rightarrow> (error + string) \<times> FFmpeg" where
  "write_inputs i [] listFileContent eng = (Inr listFileContent, eng)"
| "write_inputs i (clip # rest) listFileContent eng =
     (case clip_file clip of
        None \<Rightarrow> (Inl (MissingSource (clip_name clip)), eng)
      | Some inputData \<Rightarrow>
          write_inputs (Suc i) rest
            (listFileContent @ ''file '' @ input_name i @ [CHR 0x0A])
            (writeFile (input_name i) inputData eng))"

text \<open>The second \<open>for\<close> loop: deletes the inputs \<open>0 .. n - 1\<close>.\<close>

definition delete_inputs :: "nat \<Rightarrow> FFmpeg \<Rightarrow> FFmpeg" where
  "delete_inputs n eng = fold (\<lambda>i. deleteFile (input_name i)) [0..<n] eng"

definition concat_args :: "string list" where
  "concat_args = [''-f'', ''concat'', ''-safe'', ''0'', ''-i'', ''list.txt'', ''-c'', ''copy'', ''output.mp4'']"

text \<open>
  The body of the \<open>try\<close> block of \<open>exportSequence\<close>, on the engine instance \<open>eng\<close>. The
  result is the thrown error, or the returned value: a named buffer when an index is
  given, nothing (\<open>undefined\<close>) otherwise.
\<close>

definition export_try ::
  "engine_run \<Rightarrow> 'd Sequence \<Rightarrow> nat option \<Rightarrow> FFmpeg \<Rightarrow> 'd state \<Rightarrow>
   (error + (string \<times> bytes) option) \<times> 'd state" where
  "export_try run sequence index eng st =
     (let st1 = st\<lparr>loading := True\<rparr>;
          st2 = (if not_index index then emit (ToastSuccess ''Starting export...'') st1 else st1)
      in case write_inputs 0 (seq_clips sequence) [] eng of
           (Inl e, eng1) \<Rightarrow> (Inl e, st2\<lparr>ffmpeg := Some eng1\<rparr>)
         | (Inr listFileContent, eng1) \<Rightarrow>
             (case exec run concat_args (writeFile ''list.txt'' (map of_char listFileContent) eng1) of
                (Inl e, eng2) \<Rightarrow> (Inl e, st2\<lparr>ffmpeg := Some eng2\<rparr>)
              | (Inr u, eng2) \<Rightarrow>
                  (case readFile ''output.mp4'' eng2 of
                     None \<Rightarrow> (Inl (EngineError ''readFile''), st2\<lparr>ffmpeg := Some eng2\<rparr>)
                   | Some outputData \<Rightarrow>
                       (case index of
                          Some ix \<Rightarrow>
                            (Inr (Some (''restitched '' @ string_of_nat (ix + 1) @ ''.mp4'', outputData)),
                             st2\<lparr>ffmpeg := Some eng2\<rparr>)
                        | None \<Rightarrow>
                            (let st3 = emit (Download (''restitched '' @ seq_id sequence @ ''.mp4'')
                                               (Video outputData)) st2;
                                 eng3 = deleteFile ''output.mp4''
                                          (deleteFile ''list.txt''
                                            (delete_inputs (length (seq_clips sequence)) eng2));
                                 st4 = st3\<lparr>ffmpeg := Some eng3\<rparr>
                             in (Inr None,
                                 if not_index index then emit (ToastSuccess ''Export completed!'') st4
                                 else st4))))))"

text \<open>\<open>exportSequence\<close>: the readiness guard, the \<open>try\<close> block, \<open>catch\<close> and \<open>finally\<close>.\<close>

definition exportSequence ::
  "engine_run \<Rightarrow> 'd Sequence \<Rightarrow> nat option \<Rightarrow> 'd state \<Rightarrow>
   (error + (string \<times> bytes) option) \<times> 'd state" where
  "exportSequence run sequence index st =
     (case (if ffmpegLoading st then None else ffmpeg st) of
        None \<Rightarrow> (Inr None, emit (ToastError ''Please wait for video processing to initialize'') st)
      | Some eng \<Rightarrow>
          (let (r, st1) = export_try run sequence index eng st;
               st2 = (case r of
                        Inl e \<Rightarrow>
                          (let st' = emit (ConsoleError ''Export error:'' e) st1
                           in if not_index index then emit (ToastError ''Failed to export sequence'') st'
                              else st')
                      | Inr v \<Rightarrow> st1)
           in (r, if not_index index then st2\<lparr>loading := False\<rparr> else st2)))"

text \<open>
  The \<open>for\<close> loop of \<open>downloadAllSequences\<close>, from position \<open>i\<close> on: one export after
  the other, each result filed in the archive; the first thrown error leaves the loop.
\<close>

function export_all ::
  "engine_run \<Rightarrow> 'd Sequence list \<Rightarrow> nat \<Rightarrow> (string \<times> bytes) list \<Rightarrow> 'd state \<Rightarrow>
   (error + (string \<times> bytes) list) \<times> 'd state" where
  "export_all run [] i archive st = (Inr archive, st)"
| "export_all run (sequence # rest) i archive st =
     (case exportSequence run sequence (Some i) st of
        (Inl e, st1) \<Rightarrow> (Inl e, st1)
      | (Inr None, st1) \<Rightarrow> export_all run rest (Suc i) archive st1
      | (Inr (Some result), st1) \<Rightarrow>
          export_all run rest (Suc i)
            (AList.update (''restitched '' @ string_of_nat (i + 1) @ ''.mp4'') (snd result) archive) st1)"
  by pat_completeness auto
termination
  by (relation "measure (\<lambda>(run, seqs, i, archive, st). length seqs)") auto

definition downloadAllSequences :: "engine_run \<Rightarrow> 'd state \<Rightarrow> 'd state" where
  "downloadAllSequences run st =
     (if ffmpegLoading st \<or> ffmpeg st = None \<or> length (sequences st) = 0 then
        emit (ToastError ''No sequences to download or processing not ready'') st
      else
        (let st1 = emit (ToastSuccess ''Starting batch download...'') (st\<lparr>loading := True\<rparr>)
         in case export_all run (sequences st) 0 [] st1 of
              (Inr archive, st2) \<Rightarrow>
                (emit (ToastSuccess ''All sequences downloaded!'')
                   (emit (Download ''restitched-sequences.zip'' (Archive archive)) st2))
                \<lparr>loading := False\<rparr>
            | (Inl e, st2) \<Rightarrow>
                (emit (ToastError ''Failed to download all sequences'')
                   (emit (ConsoleError ''Batch download error:'' e) st2))
                \<lparr>loading := False\<rparr>))"

section \<open>Notions used in the statements\<close>

text \<open>
  The clips, the key and the sequence that one pass of the loop builds from its draw;
  \<open>generate_loop_step\<close> below shows that the loop is made of them.
\<close>

definition drawClips ::
  "'d VideoClip list \<Rightarrow> 'd VideoClip list \<Rightarrow> 'd VideoClip list \<Rightarrow> draw \<Rightarrow> 'd VideoClip list" where
  "drawClips hooks sellingPoints ctas d =
     [pick (hookDraw d) hooks] @ shuffledSellingPoints d sellingPoints @ [pick (ctaDraw d) ctas]"

definition drawKey ::
  "'d VideoClip list \<Rightarrow> 'd VideoClip list \<Rightarrow> 'd VideoClip list \<Rightarrow> draw \<Rightarrow> string" where
  "drawKey hooks sellingPoints ctas d =
     combinationKey (pick (hookDraw d) hooks) (shuffledSellingPoints d sellingPoints)
       (pick (ctaDraw d) ctas)"

definition newSequence ::
  "('d::{plus,zero}) VideoClip list \<Rightarrow> 'd VideoClip list \<Rightarrow> 'd VideoClip list \<Rightarrow> nat \<Rightarrow> draw \<Rightarrow>
   'd Sequence" where
  "newSequence hooks sellingPoints ctas k d =
     \<lparr>seq_id = ''sequence-'' @ string_of_nat (k + 1),
      seq_clips = drawClips hooks sellingPoints ctas d,
      seq_duration = totalDuration (drawClips hooks sellingPoints ctas d)\<rparr>"

text \<open>The keys drawn in the passes \<open>i, \<dots>, m - 1\<close> of a run.\<close>

definition drawnKeys ::
  "'d VideoClip list \<Rightarrow> 'd VideoClip list \<Rightarrow> 'd VideoClip list \<Rightarrow> (nat \<Rightarrow> draw) \<Rightarrow> nat \<Rightarrow> nat \<Rightarrow>
   string set" where
  "drawnKeys hooks sellingPoints ctas rnd i m =
     (\<lambda>j. drawKey hooks sellingPoints ctas (rnd j)) ` {i..<m}"

text \<open>
  The key of a finished sequence: as the loop joins it, and as the triple of hook id,
  sorted selling-point ids and CTA id.
\<close>

definition seqKey :: "'d Sequence \<Rightarrow> string" where
  "seqKey s = combinationKey (hd (seq_clips s)) (butlast (tl (seq_clips s))) (last (seq_clips s))"

definition dedupKey :: "'d Sequence \<Rightarrow> string \<times> string list \<times> string" where
  "dedupKey s =
     (clip_id (hd (seq_clips s)), sort (map clip_id (butlast (tl (seq_clips s)))),
      clip_id (last (seq_clips s)))"

text \<open>
  The shape of a clip list: a hook first, a CTA last, and between them only selling
  points, at least \<open>lo\<close> and at most \<open>hi\<close> of them.
\<close>

definition shape :: "nat \<Rightarrow> nat \<Rightarrow> 'd VideoClip list \<Rightarrow> bool" where
  "shape lo hi clips =
     (2 \<le> length clips \<and> clip_type (hd clips) = Hook \<and> clip_type (last clips) = Cta \<and>
      list_all (\<lambda>clip. clip_type clip = SellingPoint) (butlast (tl clips)) \<and>
      lo \<le> length (butlast (tl clips)) \<and> length (butlast (tl clips)) \<le> hi)"

text \<open>The three partitions of the catalog of a state.\<close>

abbreviation hooksOf :: "'d state \<Rightarrow> 'd VideoClip list" where
  "hooksOf st \<equiv> clipsOfType Hook (availableClips st)"
abbreviation sellingPointsOf :: "'d state \<Rightarrow> 'd VideoClip list" where
  "sellingPointsOf st \<equiv> clipsOfType SellingPoint (availableClips st)"
abbreviation ctasOf :: "'d state \<Rightarrow> 'd VideoClip list" where
  "ctasOf st \<equiv> clipsOfType Cta (availableClips st)"

text \<open>
  The exact sum of the durations of a sequence, for finite durations, and the additions
  of a left-to-right sum that round nothing.
\<close>

fun finite_value :: "double \<Rightarrow> rat" where
  "finite_value (Fin x) = x"
| "finite_value d = 0"

definition durationIsExactSum :: "double Sequence \<Rightarrow> bool" where
  "durationIsExactSum s =
     (seq_duration s = Fin (sum_list (map (finite_value \<circ> clip_duration) (seq_clips s))))"

fun no_rounding :: "rat \<Rightarrow> rat list \<Rightarrow> bool" where
  "no_rounding acc [] = True"
| "no_rounding acc (x # xs) = (Fin acc + Fin x = Fin (acc + x) \<and> no_rounding (acc + x) xs)"

section \<open>Example data\<close>

text \<open>The seven clips of the scenario of the specification, and two random sources.\<close>

definition hookA :: "double VideoClip" where
  "hookA = \<lparr>clip_id = ''hookA'', clip_name = ''Hook A'', clip_duration = Fin (5 / 2), clip_type = Hook, clip_file = Some [1]\<rparr>"
definition hookB :: "double VideoClip" where
  "hookB = \<lparr>clip_id = ''hookB'', clip_name = ''Hook B'', clip_duration = Fin 3, clip_type = Hook, clip_file = Some [2]\<rparr>"
definition sp1 :: "double VideoClip" where
  "sp1 = \<lparr>clip_id = ''sp1'', clip_name = ''SP1'', clip_duration = Fin 2, clip_type = SellingPoint, clip_file = Some [3]\<rparr>"
definition sp2 :: "double VideoClip" where
  "sp2 = \<lparr>clip_id = ''sp2'', clip_name = ''SP2'', clip_duration = Fin (5 / 2), clip_type = SellingPoint, clip_file = Some [4]\<rparr>"
definition sp3 :: "double VideoClip" where
  "sp3 = \<lparr>clip_id = ''sp3'', clip_name = ''SP3'', clip_duration = Fin 3, clip_type = SellingPoint, clip_file = Some [5]\<rparr>"
definition ctaA :: "double VideoClip" where
  "ctaA = \<lparr>clip_id = ''ctaA'', clip_name = ''CTA A'', clip_duration = Fin 2, clip_type = Cta, clip_file = Some [6]\<rparr>"
definition ctaB :: "double VideoClip" where
  "ctaB = \<lparr>clip_id = ''ctaB'', clip_name = ''CTA B'', clip_duration = Fin (5 / 2), clip_type = Cta, clip_file = Some [7]\<rparr>"

definition studio :: "double VideoClip list \<Rightarrow> double state" where
  "studio clips = \<lparr>sequences = [], loading = False, ffmpegLoading = False, availableClips = clips,
     ffmpeg = Some \<lparr>files = [], execs = []\<rparr>, events = []\<rparr>"

definition sameDraw :: "nat \<Rightarrow> draw" where
  "sameDraw i = \<lparr>hookDraw = 0, ctaDraw = 0, countDraw = 0, shuffleDraw = 0\<rparr>"

definition countingDraw :: "nat \<Rightarrow> draw" where
  "countingDraw i = \<lparr>hookDraw = i, ctaDraw = i div 2, countDraw = i div 4, shuffleDraw = i div 12\<rparr>"

text \<open>
  Two clips whose durations are the doubles nearest to 0.7 and to 0.2, and a random source
  that follows \<open>countingDraw\<close> for two passes and \<open>sameDraw\<close> afterwards.
\<close>

definition hookTenths :: "double VideoClip" where
  "hookTenths = \<lparr>clip_id = ''hookT'', clip_name = ''Hook T'', clip_duration = round_double (7 / 10),
     clip_type = Hook, clip_file = Some [8]\<rparr>"

definition ctaTenths :: "double VideoClip" where
  "ctaTenths = \<lparr>clip_id = ''ctaT'', clip_name = ''CTA T'', clip_duration = round_double (2 / 10),
     clip_type = Cta, clip_file = Some [9]\<rparr>"

definition countingThenSame :: "nat \<Rightarrow> draw" where
  "countingThenSame j = (if j < 2 then countingDraw j else sameDraw j)"

abbreviation scenario :: "double state" where
  "scenario \<equiv> studio [hookA, hookB, sp1, sp2, sp3, ctaA, ctaB]"

definition generated :: "double state" where
  "generated = the (generateSequences countingDraw scenario)"


section \<open>Notions and example data for the export\<close>

text \<open>
  Downloads among the events; the number of command lines the engine has run; the state
  in which the batch loop starts; readiness of the engine.
\<close>

fun is_download :: "event \<Rightarrow> bool" where
  "is_download (Download name content) = True"
| "is_download e = False"

definition execCount :: "'d state \<Rightarrow> nat" where
  "execCount st = (case ffmpeg st of None \<Rightarrow> 0 | Some eng \<Rightarrow> length (execs eng))"

definition batch_start :: "'d state \<Rightarrow> 'd state" where
  "batch_start st = emit (ToastSuccess ''Starting batch download...'') (st\<lparr>loading := True\<rparr>)"

definition ready :: "'d state \<Rightarrow> bool" where
  "ready st = (\<not> ffmpegLoading st \<and> ffmpeg st \<noteq> None)"

text \<open>
  An engine for the examples: it writes the inputs that the manifest counts, one after
  the other, to \<open>output.mp4\<close>. A clip without a file, and four sequences over the
  example clips.
\<close>

definition stream_copy :: engine_run where
  "stream_copy args fs =
     (case map_of fs ''list.txt'' of
        None \<Rightarrow> None
      | Some manifest \<Rightarrow>
          Some (AList.update ''output.mp4''
                  (concat (map (\<lambda>i. case map_of fs (input_name i) of None \<Rightarrow> [] | Some b \<Rightarrow> b)
                             [0..<count_list manifest 10]))
                  fs))"

definition ctaLost :: "double VideoClip" where
  "ctaLost = \<lparr>clip_id = ''ctaLost'', clip_name = ''CTA Lost'', clip_duration = Fin 2, clip_type = Cta, clip_file = None\<rparr>"

definition seqGood :: "double Sequence" where
  "seqGood = \<lparr>seq_id = ''sequence-1'', seq_clips = [hookA, sp1, ctaA], seq_duration = Fin (13 / 2)\<rparr>"
definition seqGood2 :: "double Sequence" where
  "seqGood2 = \<lparr>seq_id = ''sequence-2'', seq_clips = [hookB, ctaA], seq_duration = Fin 5\<rparr>"
definition seqBad2 :: "double Sequence" where
  "seqBad2 = \<lparr>seq_id = ''sequence-2'', seq_clips = [hookA, sp1, ctaLost], seq_duration = Fin (13 / 2)\<rparr>"
definition seqBad3 :: "double Sequence" where
  "seqBad3 = \<lparr>seq_id = ''sequence-3'', seq_clips = [hookA, sp1, ctaLost], seq_duration = Fin (13 / 2)\<rparr>"

definition gallery :: "double Sequence list \<Rightarrow> double state" where
  "gallery seqs = (studio [hookA, hookB, sp1, ctaA, ctaLost])\<lparr>sequences := seqs\<rparr>"

section \<open>Double arithmetic\<close>

text \<open>
  The exponent of a positive rational is its binade; the rounding of the mantissa is
  within half a unit; three sums as the host language computes them (0.1 + 0.2 is
  0.30000000000000004); and a sum whose additions round nothing is the exact sum.
\<close>

lemma pow2_powi: "pow2 e = 2 powi e"
  by (simp add: pow2_def power_int_def field_simps)

lemma binade_bounds:
  assumes "0 < x"
  shows "pow2 (binade x) \<le> x \<and> x < pow2 (binade x + 1)"
proof -
  obtain p q where pq: "quotient_of x = (p, q)" by (cases "quotient_of x")
  from quotient_of_denom_pos [OF pq] have q: "0 < q" .
  from quotient_of_div [OF pq] have x: "x = of_int p / of_int q" .
  with assms q have p: "0 < p" by (simp add: zero_less_divide_iff)
  let ?bp = "bitlen p" and ?bq = "bitlen q"
  from bitlen_bounds [OF p] have pb: "2 ^ nat (?bp - 1) \<le> p" "p < 2 ^ nat ?bp" by simp_all
  from bitlen_bounds [OF q] have qb: "2 ^ nat (?bq - 1) \<le> q" "q < 2 ^ nat ?bq" by simp_all
  from p have bp1: "1 \<le> ?bp" by (auto simp: bitlen_alt_def)
  from q have bq1: "1 \<le> ?bq" by (auto simp: bitlen_alt_def)
  have P: "(2::rat) powi (?bp - 1) \<le> of_int p" "of_int p < (2::rat) powi ?bp"
  proof -
    have "(2::rat) powi (?bp - 1) = of_int (2 ^ nat (?bp - 1))" using bp1 by (simp add: power_int_def)
    also have "\<dots> \<le> of_int p" using pb(1) by (simp only: of_int_le_iff)
    finally show "(2::rat) powi (?bp - 1) \<le> of_int p" .
    have "(of_int p :: rat) < of_int (2 ^ nat ?bp)" using pb(2) by (simp only: of_int_less_iff)
    also have "\<dots> = (2::rat) powi ?bp" using bp1 by (simp add: power_int_def)
    finally show "of_int p < (2::rat) powi ?bp" .
  qed
  have Q: "(2::rat) powi (?bq - 1) \<le> of_int q" "of_int q < (2::rat) powi ?bq"
  proof -
    have "(2::rat) powi (?bq - 1) = of_int (2 ^ nat (?bq - 1))" using bq1 by (simp add: power_int_def)
    also have "\<dots> \<le> of_int q" using qb(1) by (simp only: of_int_le_iff)
    finally show "(2::rat) powi (?bq - 1) \<le> of_int q" .
    have "(of_int q :: rat) < of_int (2 ^ nat ?bq)" using qb(2) by (simp only: of_int_less_iff)
    also have "\<dots> = (2::rat) powi ?bq" using bq1 by (simp add: power_int_def)
    finally show "of_int q < (2::rat) powi ?bq" .
  qed
  have qpos: "(0::rat) < of_int q" using q by simp
  have pw: "(0::rat) < 2 powi k" for k by (simp add: power_int_def)
  let ?d = "?bp - ?bq"
  have up: "x < 2 powi (?d + 1)"
  proof -
    have "x < 2 powi ?bp / of_int q" unfolding x using P(2) qpos by (simp add: divide_strict_right_mono)
    also have "\<dots> \<le> 2 powi ?bp / 2 powi (?bq - 1)"
    proof (rule divide_left_mono [OF Q(1)])
      show "(0::rat) \<le> 2 powi ?bp" using pw [of ?bp] by simp
      show "(0::rat) < of_int q * 2 powi (?bq - 1)" by (intro mult_pos_pos qpos pw)
    qed
    also have "\<dots> = 2 powi (?bp - (?bq - 1))" by (simp add: power_int_diff)
    finally show ?thesis by (simp add: algebra_simps)
  qed
  have lo: "2 powi (?d - 1) < x"
  proof -
    have "(2::rat) powi (?d - 1) = 2 powi ((?bp - 1) - ?bq)" by (simp add: algebra_simps)
    also have "\<dots> = 2 powi (?bp - 1) / 2 powi ?bq" by (simp add: power_int_diff)
    also have "\<dots> < 2 powi (?bp - 1) / of_int q"
    proof (rule divide_strict_left_mono [OF Q(2)])
      show "(0::rat) < 2 powi (?bp - 1)" by (rule pw)
      show "(0::rat) < 2 powi ?bq * of_int q" by (intro mult_pos_pos qpos pw)
    qed
    also have "\<dots> \<le> x" unfolding x using P(1) qpos by (simp add: divide_right_mono)
    finally show ?thesis .
  qed
  have b: "binade x = (if pow2 ?d \<le> x then ?d else ?d - 1)"
    by (simp add: binade_def pq Let_def)
  show ?thesis
  proof (cases "pow2 ?d \<le> x")
    case True
    with b up show ?thesis by (simp add: pow2_powi)
  next
    case False
    with b lo show ?thesis by (simp add: pow2_powi not_le less_imp_le)
  qed
qed

lemma round_even_near: "\<bar>of_int (round_even x) - x\<bar> \<le> 1 / 2"
proof -
  have "of_int \<lfloor>x\<rfloor> \<le> x" "x < of_int \<lfloor>x\<rfloor> + 1" by linarith+
  then show ?thesis by (auto simp: round_even_def Let_def)
qed

lemma tenths_sum:
  "round_double (1 / 10) + round_double (2 / 10) = round_double (30000000000000004 / 10 ^ 17)"
  "0 + round_double (7 / 10) + round_double (2 / 10) + round_double (1 / 10)
     = round_double (9999999999999999 / 10 ^ 16)"
  "round_double (7 / 10) + round_double (2 / 10) = round_double (8999999999999999 / 10 ^ 16)"
  by code_simp+

lemma no_rounding_foldl:
  "no_rounding acc xs \<Longrightarrow> foldl (+) (Fin acc) (map Fin xs) = Fin (acc + sum_list xs)"
  by (induction xs arbitrary: acc) (simp_all add: add.assoc)

section \<open>The generation loop\<close>

text \<open>One pass of the loop, in terms of the draw it reads.\<close>

lemma seqKey_made:
  "seq_clips s = drawClips hooks sps ctas d \<Longrightarrow> seqKey s = drawKey hooks sps ctas d"
  by (simp add: seqKey_def drawKey_def drawClips_def butlast_append)

lemma generate_loop_step:
  "generate_loop hooks sps ctas n rnd i used acc =
     (if length acc < n then
        (if drawKey hooks sps ctas (rnd i) \<notin> used then
           generate_loop hooks sps ctas n rnd (Suc i) (insert (drawKey hooks sps ctas (rnd i)) used)
             (acc @ [newSequence hooks sps ctas (length acc) (rnd i)])
         else generate_loop hooks sps ctas n rnd (Suc i) used acc)
      else Some acc)"
  by (subst generate_loop.simps) (simp add: Let_def drawKey_def drawClips_def newSequence_def)

text \<open>
  Induction over a run that returns: the loop stops, or the pass rejects its draw, or it
  adds a sequence.
\<close>


lemmas generate_loop_raw = generate_loop.raw_induct [rotated 1, consumes 1, case_names step]

lemma generate_loop_rule [consumes 1, case_names stop skip emit]:
  assumes run: "generate_loop hooks sps ctas n rnd i used acc = Some res"
    and stop: "\<And>i used acc. \<not> length acc < n \<Longrightarrow> P i used acc acc"
    and skip: "\<And>i used acc res. length acc < n \<Longrightarrow> drawKey hooks sps ctas (rnd i) \<in> used \<Longrightarrow>
                P (Suc i) used acc res \<Longrightarrow> P i used acc res"
    and emit: "\<And>i used acc res. length acc < n \<Longrightarrow> drawKey hooks sps ctas (rnd i) \<notin> used \<Longrightarrow>
                P (Suc i) (insert (drawKey hooks sps ctas (rnd i)) used)
                  (acc @ [newSequence hooks sps ctas (length acc) (rnd i)]) res \<Longrightarrow>
                P i used acc res"
  shows "P i used acc res"
proof -
  have "hooks' = hooks \<longrightarrow> sps' = sps \<longrightarrow> ctas' = ctas \<longrightarrow> n' = n \<longrightarrow> rnd' = rnd \<longrightarrow> P i used acc res"
    if "generate_loop hooks' sps' ctas' n' rnd' i used acc = Some res" for hooks' sps' ctas' n' rnd'
    using that
  proof (induction hooks' sps' ctas' n' rnd' i used acc res rule: generate_loop_raw)
    case (step loop hooks' sps' ctas' n' rnd' i used acc res)
    show ?case
    proof (intro impI)
      assume eqs: "hooks' = hooks" "sps' = sps" "ctas' = ctas" "n' = n" "rnd' = rnd"
      show "P i used acc res"
      proof (cases "length acc < n")
        case False
        with step(2) eqs have "res = acc" by simp
        with False stop show ?thesis by simp
      next
        case len: True
        show ?thesis
        proof (cases "drawKey hooks sps ctas (rnd i) \<in> used")
          case True
          with step(2) len eqs have "loop hooks sps ctas n rnd (Suc i) used acc = Some res"
            by (simp add: Let_def drawKey_def)
          with step(1) eqs have "P (Suc i) used acc res" by blast
          with len True skip show ?thesis by blast
        next
          case False
          with step(2) len eqs
          have "loop hooks sps ctas n rnd (Suc i) (insert (drawKey hooks sps ctas (rnd i)) used)
                  (acc @ [newSequence hooks sps ctas (length acc) (rnd i)]) = Some res"
            by (simp add: Let_def drawKey_def drawClips_def newSequence_def)
          with step(1) eqs
          have "P (Suc i) (insert (drawKey hooks sps ctas (rnd i)) used)
                  (acc @ [newSequence hooks sps ctas (length acc) (rnd i)]) res" by blast
          with len False emit show ?thesis by blast
        qed
      qed
    qed
  qed
  with run show ?thesis by blast
qed

text \<open>
  What a returning run has built: only sequences made from draws, as many as the target,
  with pairwise different keys.
\<close>

lemma generate_loop_members:
  assumes "generate_loop hooks sps ctas n rnd i used acc = Some res"
  shows "set res \<subseteq> set acc \<union> {s. \<exists>k d. s = newSequence hooks sps ctas k d}"
  using assms
proof (induction rule: generate_loop_rule)
  case (stop i used acc)
  then show ?case by simp
next
  case (skip i used acc res)
  then show ?case by simp
next
  case (emit i used acc res)
  then show ?case by auto
qed

lemma generate_loop_length:
  assumes "generate_loop hooks sps ctas n rnd i used acc = Some res"
  shows "length acc \<le> n \<longrightarrow> length res = n"
  using assms
proof (induction rule: generate_loop_rule)
  case (stop i used acc)
  then show ?case by simp
next
  case (skip i used acc res)
  then show ?case by simp
next
  case (emit i used acc res)
  then show ?case by simp
qed

lemma seqKey_newSequence [simp]:
  "seqKey (newSequence hooks sps ctas k d) = drawKey hooks sps ctas d"
  by (simp add: seqKey_made newSequence_def)

lemma generate_loop_keys:
  assumes "generate_loop hooks sps ctas n rnd i used acc = Some res"
  shows "used = seqKey ` set acc \<longrightarrow> distinct (map seqKey acc) \<longrightarrow> distinct (map seqKey res)"
  using assms
proof (induction rule: generate_loop_rule)
  case (stop i used acc)
  then show ?case by simp
next
  case (skip i used acc res)
  then show ?case by simp
next
  case (emit i used acc res)
  then show ?case by auto
qed

subsection \<open>Which runs return\<close>

lemma drawnKeys_empty [simp]: "drawnKeys hooks sps ctas rnd i i = {}"
  by (simp add: drawnKeys_def)

lemma drawnKeys_first:
  "i < m \<Longrightarrow> drawnKeys hooks sps ctas rnd i m =
     insert (drawKey hooks sps ctas (rnd i)) (drawnKeys hooks sps ctas rnd (Suc i) m)"
proof -
  assume "i < m"
  then have "{i..<m} = insert i {Suc i..<m}" by auto
  then show ?thesis by (simp add: drawnKeys_def)
qed

lemma drawnKeys_mono:
  "i \<le> i' \<Longrightarrow> m' \<le> m \<Longrightarrow> drawnKeys hooks sps ctas rnd i' m' \<subseteq> drawnKeys hooks sps ctas rnd i m"
  by (auto simp: drawnKeys_def)

lemma finite_drawnKeys [simp]: "finite (drawnKeys hooks sps ctas rnd i m)"
  by (simp add: drawnKeys_def)

text \<open>Enough different keys among the draws make the loop return.\<close>

lemma generate_loop_returns:
  assumes "finite used" "card used = length acc"
    and "n \<le> card (used \<union> drawnKeys hooks sps ctas rnd i m)"
  shows "\<exists>res. generate_loop hooks sps ctas n rnd i used acc = Some res"
  using assms
proof (induction "m - i" arbitrary: i used acc)
  case 0
  then have "drawnKeys hooks sps ctas rnd i m = {}" by (simp add: drawnKeys_def)
  with 0 have "\<not> length acc < n" by simp
  then show ?case by (subst generate_loop_step) simp
next
  case (Suc k)
  show ?case
  proof (cases "length acc < n")
    case False
    then show ?thesis by (subst generate_loop_step) simp
  next
    case len: True
    from Suc(2) have im: "i < m" by simp
    note K = drawnKeys_first [OF im, of hooks sps ctas rnd]
    let ?k = "drawKey hooks sps ctas (rnd i)"
    from Suc(2) have k: "k = m - Suc i" by simp
    show ?thesis
    proof (cases "?k \<in> used")
      case True
      then have "used \<union> drawnKeys hooks sps ctas rnd i m = used \<union> drawnKeys hooks sps ctas rnd (Suc i) m"
        using K by auto
      with Suc(5) have "n \<le> card (used \<union> drawnKeys hooks sps ctas rnd (Suc i) m)" by simp
      from Suc(1) [OF k Suc(3) Suc(4) this] True len show ?thesis
        by (subst generate_loop_step) simp
    next
      case False
      have eq: "insert ?k used \<union> drawnKeys hooks sps ctas rnd (Suc i) m = used \<union> drawnKeys hooks sps ctas rnd i m"
        using K by auto
      have fin: "finite (insert ?k used)" using Suc(3) by simp
      have crd: "card (insert ?k used) = length (acc @ [newSequence hooks sps ctas (length acc) (rnd i)])"
        using Suc(3) Suc(4) False by simp
      have "n \<le> card (insert ?k used \<union> drawnKeys hooks sps ctas rnd (Suc i) m)"
        using Suc(5) eq by simp
      from Suc(1) [OF k fin crd this] False len show ?thesis
        by (subst generate_loop_step) simp
    qed
  qed
qed

text \<open>A run that returns has drawn enough different keys.\<close>

lemma generate_loop_returns_only:
  assumes "generate_loop hooks sps ctas n rnd i used acc = Some res"
  shows "finite used \<longrightarrow> card used = length acc \<longrightarrow>
         (\<exists>m. n \<le> card (used \<union> drawnKeys hooks sps ctas rnd i m))"
  using assms
proof (induction rule: generate_loop_rule)
  case (stop i used acc)
  show ?case
  proof (intro impI)
    assume "finite used" "card used = length acc"
    with stop have "n \<le> card (used \<union> drawnKeys hooks sps ctas rnd i i)" by simp
    then show "\<exists>m. n \<le> card (used \<union> drawnKeys hooks sps ctas rnd i m)" ..
  qed
next
  case (skip i used acc res)
  show ?case
  proof (intro impI)
    assume fin: "finite used" and crd: "card used = length acc"
    with skip obtain m where m: "n \<le> card (used \<union> drawnKeys hooks sps ctas rnd (Suc i) m)" by blast
    have "used \<union> drawnKeys hooks sps ctas rnd (Suc i) m \<subseteq> used \<union> drawnKeys hooks sps ctas rnd i m"
      using drawnKeys_mono [of i "Suc i" m m hooks sps ctas rnd] by auto
    then have "card (used \<union> drawnKeys hooks sps ctas rnd (Suc i) m) \<le> card (used \<union> drawnKeys hooks sps ctas rnd i m)"
      using fin by (intro card_mono) simp_all
    with m have "n \<le> card (used \<union> drawnKeys hooks sps ctas rnd i m)" by simp
    then show "\<exists>m. n \<le> card (used \<union> drawnKeys hooks sps ctas rnd i m)" ..
  qed
next
  case (emit i used acc res)
  let ?k = "drawKey hooks sps ctas (rnd i)"
  show ?case
  proof (intro impI)
    assume fin: "finite used" and crd: "card used = length acc"
    with emit obtain m where m: "n \<le> card (insert ?k used \<union> drawnKeys hooks sps ctas rnd (Suc i) m)"
      by auto
    let ?m = "max m (Suc i)"
    have "drawnKeys hooks sps ctas rnd i ?m = insert ?k (drawnKeys hooks sps ctas rnd (Suc i) ?m)"
      by (rule drawnKeys_first) simp
    moreover have "drawnKeys hooks sps ctas rnd (Suc i) m \<subseteq> drawnKeys hooks sps ctas rnd (Suc i) ?m"
      by (rule drawnKeys_mono) simp_all
    ultimately have "insert ?k used \<union> drawnKeys hooks sps ctas rnd (Suc i) m \<subseteq> used \<union> drawnKeys hooks sps ctas rnd i ?m"
      by auto
    then have "card (insert ?k used \<union> drawnKeys hooks sps ctas rnd (Suc i) m) \<le> card (used \<union> drawnKeys hooks sps ctas rnd i ?m)"
      using fin by (intro card_mono) simp_all
    with m have "n \<le> card (used \<union> drawnKeys hooks sps ctas rnd i ?m)" by simp
    then show "\<exists>m. n \<le> card (used \<union> drawnKeys hooks sps ctas rnd i m)" ..
  qed
qed

lemma generate_loop_returns_iff:
  "(\<exists>res. generate_loop hooks sps ctas n rnd 0 {} [] = Some res) \<longleftrightarrow>
   (\<exists>m. n \<le> card (drawnKeys hooks sps ctas rnd 0 m))"
proof
  assume "\<exists>res. generate_loop hooks sps ctas n rnd 0 {} [] = Some res"
  then obtain res where "generate_loop hooks sps ctas n rnd 0 {} [] = Some res" ..
  from generate_loop_returns_only [OF this] show "\<exists>m. n \<le> card (drawnKeys hooks sps ctas rnd 0 m)"
    by simp
next
  assume "\<exists>m. n \<le> card (drawnKeys hooks sps ctas rnd 0 m)"
  then obtain m where "n \<le> card ({} \<union> drawnKeys hooks sps ctas rnd 0 m)" by auto
  then show "\<exists>res. generate_loop hooks sps ctas n rnd 0 {} [] = Some res"
    by (intro generate_loop_returns [where m = m]) simp_all
qed

text \<open>
  A run that has its keys within the first \<open>m\<close> draws reads no later draw: a random
  source that agrees on those draws gives the same run.
\<close>

lemma generate_loop_reads:
  assumes "finite used" "card used = length acc"
    and "n \<le> card (used \<union> drawnKeys hooks sps ctas rnd i m)"
    and "\<forall>j. i \<le> j \<and> j < m \<longrightarrow> rnd' j = rnd j"
  shows "generate_loop hooks sps ctas n rnd' i used acc = generate_loop hooks sps ctas n rnd i used acc"
  using assms
proof (induction "m - i" arbitrary: i used acc)
  case 0
  then have "drawnKeys hooks sps ctas rnd i m = {}" by (simp add: drawnKeys_def)
  with 0 have "\<not> length acc < n" by simp
  then show ?case
    by (subst generate_loop_step, subst (2) generate_loop_step) simp
next
  case (Suc k)
  show ?case
  proof (cases "length acc < n")
    case False
    then show ?thesis by (subst generate_loop_step, subst (2) generate_loop_step) simp
  next
    case len: True
    from Suc(2) have im: "i < m" by simp
    with Suc(6) have same: "rnd' i = rnd i" by simp
    from Suc(6) have later: "\<forall>j. Suc i \<le> j \<and> j < m \<longrightarrow> rnd' j = rnd j" by simp
    note K = drawnKeys_first [OF im, of hooks sps ctas rnd]
    let ?k = "drawKey hooks sps ctas (rnd i)"
    from Suc(2) have k: "k = m - Suc i" by simp
    show ?thesis
    proof (cases "?k \<in> used")
      case True
      then have "used \<union> drawnKeys hooks sps ctas rnd i m = used \<union> drawnKeys hooks sps ctas rnd (Suc i) m"
        using K by auto
      with Suc(5) have "n \<le> card (used \<union> drawnKeys hooks sps ctas rnd (Suc i) m)" by simp
      from Suc(1) [OF k Suc(3) Suc(4) this later] True len same show ?thesis
        by (subst generate_loop_step, subst (2) generate_loop_step) simp
    next
      case False
      have eq: "insert ?k used \<union> drawnKeys hooks sps ctas rnd (Suc i) m = used \<union> drawnKeys hooks sps ctas rnd i m"
        using K by auto
      have fin: "finite (insert ?k used)" using Suc(3) by simp
      have crd: "card (insert ?k used) = length (acc @ [newSequence hooks sps ctas (length acc) (rnd i)])"
        using Suc(3) Suc(4) False by simp
      have "n \<le> card (insert ?k used \<union> drawnKeys hooks sps ctas rnd (Suc i) m)"
        using Suc(5) eq by simp
      from Suc(1) [OF k fin crd this later] False len same show ?thesis
        by (subst generate_loop_step, subst (2) generate_loop_step) simp
    qed
  qed
qed

subsection \<open>The random choices\<close>

text \<open>
  Every outcome of the source's random choices is the outcome of some draw: every index
  of a list, every count \<open>min(c, n)\<close> with \<open>c\<close> from one to three, and every
  rearrangement of the selling points.
\<close>

lemma random_sort_complete:
  "mset ys = mset xs \<Longrightarrow> \<exists>k. random_sort k xs = ys"
proof (induction ys arbitrary: xs)
  case Nil
  then have "xs = []" by simp
  then show ?case by simp
next
  case (Cons y ys)
  from Cons.prems have "y \<in> set xs" by (metis list.set_intros(1) set_mset_mset)
  then obtain i where i: "i < length xs" "xs ! i = y" by (auto simp: in_set_conv_nth)
  let ?rest = "take i xs @ drop (Suc i) xs"
  have "mset xs = add_mset y (mset ?rest)"
    using id_take_nth_drop [OF i(1)] i(2) by (metis mset.simps(2) mset_append union_mset_add_mset_right)
  with Cons.prems have "mset ys = mset ?rest" by simp
  from Cons.IH [OF this] obtain k where k: "random_sort k ?rest = ys" ..
  from i(1) obtain x xs' where xs: "xs = x # xs'" by (cases xs) auto
  let ?k = "i + length xs * k"
  have "?k mod length xs = i" using i(1) by simp
  moreover have "length xs \<noteq> 0" using i(1) by auto
  then have "?k div length xs = k + i div length xs" by (rule div_mult_self2)
  then have "?k div length xs = k" using i(1) by simp
  ultimately have "?k mod length xs = i" "?k div length xs = k" by simp_all
  then have "random_sort ?k xs = xs ! i # random_sort k ?rest"
    unfolding xs by (simp add: Let_def del: take_Suc_Cons drop_Suc_Cons nth_Cons_Suc)
  with i(2) k show ?case by auto
qed

lemma pick_complete: "i < length xs \<Longrightarrow> \<exists>r. pick r xs = xs ! i"
  by (rule exI [of _ i]) (simp add: pick_def)

lemma numSellingPoints_complete:
  "c \<in> {1, 2, 3} \<Longrightarrow> \<exists>d. numSellingPoints d sps = min c (length sps)"
  by (rule exI [of _ "\<lparr>hookDraw = 0, ctaDraw = 0, countDraw = c - 1, shuffleDraw = 0\<rparr>"])
     (auto simp: numSellingPoints_def)

lemma pick_mem: "xs \<noteq> [] \<Longrightarrow> pick r xs \<in> set xs"
  by (simp add: pick_def)

lemma mset_random_sort [simp]: "mset (random_sort k xs) = mset xs"
proof (induction k xs rule: random_sort.induct)
  case (1 k)
  show ?case by simp
next
  case (2 k x xs)
  let ?ys = "x # xs"
  let ?i = "k mod length ?ys"
  have i: "?i < length ?ys" by simp
  have "mset ?ys = mset (take ?i ?ys @ ?ys ! ?i # drop (Suc ?i) ?ys)"
    using id_take_nth_drop [OF i] by simp
  also have "\<dots> = add_mset (?ys ! ?i) (mset (take ?i ?ys @ drop (Suc ?i) ?ys))" by simp
  finally have "mset ?ys = add_mset (?ys ! ?i) (mset (take ?i ?ys @ drop (Suc ?i) ?ys))" .
  with 2 [OF refl refl] show ?case by (simp add: Let_def del: mset_append)
qed

lemma set_random_sort [simp]: "set (random_sort k xs) = set xs"
  using mset_random_sort [of k xs] by (metis set_mset_mset)

lemma length_random_sort [simp]: "length (random_sort k xs) = length xs"
  using mset_random_sort [of k xs] by (metis size_mset)

lemma distinct_random_sort [simp]: "distinct (random_sort k xs) = distinct xs"
  using mset_random_sort [of k xs] by (metis mset_eq_imp_distinct_iff)

subsection \<open>Keys, shape and clips of one draw\<close>

text \<open>The joined key is a function of the triple, so different joined keys are different triples.\<close>

lemma seqKey_of_dedupKey: "seqKey s = (case dedupKey s of (h, m, c) \<Rightarrow> join ''|'' ([h] @ m @ [c]))"
  by (simp add: seqKey_def dedupKey_def combinationKey_def)

lemma distinct_dedupKey:
  assumes "distinct (map seqKey xs)"
  shows "distinct (map dedupKey xs)"
proof -
  have "map seqKey xs = map (\<lambda>(h, m, c). join ''|'' ([h] @ m @ [c])) (map dedupKey xs)"
    by (simp add: seqKey_of_dedupKey)
  with assms have "distinct (map (\<lambda>(h, m, c). join ''|'' ([h] @ m @ [c])) (map dedupKey xs))"
    by simp
  then show ?thesis by (rule distinct_map [THEN iffD1, THEN conjunct1])
qed

lemma numSequences_pos:
  assumes "hooks \<noteq> []" "ctas \<noteq> []"
  shows "1 \<le> numSequences hooks sps ctas"
proof -
  from assms have "0 < length hooks" "0 < length ctas" by simp_all
  then have "0 < length hooks * length ctas * 2 ^ length sps" by simp
  then have "1 \<le> maxCombinations hooks sps ctas" unfolding maxCombinations_def by linarith
  then show ?thesis unfolding numSequences_def by linarith
qed

lemma generateSequences_loop:
  assumes "hooksOf st \<noteq> []" "ctasOf st \<noteq> []"
  shows "generateSequences rnd st =
     (case generate_loop (hooksOf st) (sellingPointsOf st) (ctasOf st)
             (numSequences (hooksOf st) (sellingPointsOf st) (ctasOf st)) rnd 0 {} [] of
        None \<Rightarrow> None
      | Some newSequences \<Rightarrow>
          Some (emit (ToastSuccess (''Generated '' @ string_of_nat (length newSequences)
                        @ '' unique sequences!''))
                  (st\<lparr>sequences := newSequences, loading := False\<rparr>)))"
proof -
  from assms(1) have "availableClips st \<noteq> []" by (auto simp: clipsOfType_def)
  with assms show ?thesis by (simp add: generateSequences_def Let_def)
qed

lemma sequences_emit [simp]: "sequences (emit e st) = sequences st"
  by (simp add: emit_def)

lemma generateSequences_Some:
  assumes "hooksOf st \<noteq> []" "ctasOf st \<noteq> []" "generateSequences rnd st = Some st'"
  shows "generate_loop (hooksOf st) (sellingPointsOf st) (ctasOf st)
           (numSequences (hooksOf st) (sellingPointsOf st) (ctasOf st)) rnd 0 {} [] = Some (sequences st')"
  using assms(3) unfolding generateSequences_loop [OF assms(1,2)]
  by (auto split: option.splits)

lemma clipsOfType_type: "clip \<in> set (clipsOfType t clips) \<Longrightarrow> clip_type clip = t"
  by (simp add: clipsOfType_def)

lemma clipsOfType_subset: "set (clipsOfType t clips) \<subseteq> set clips"
  by (auto simp: clipsOfType_def)

lemma distinct_clipsOfType: "distinct clips \<Longrightarrow> distinct (clipsOfType t clips)"
  by (simp add: clipsOfType_def)

lemma length_shuffledSellingPoints:
  "length (shuffledSellingPoints d sps) = min (countDraw d mod 3 + 1) (length sps)"
  by (simp add: shuffledSellingPoints_def numSellingPoints_def)

lemma set_shuffledSellingPoints: "set (shuffledSellingPoints d sps) \<subseteq> set sps"
proof -
  have "set (shuffledSellingPoints d sps) \<subseteq> set (random_sort (shuffleDraw d) sps)"
    unfolding shuffledSellingPoints_def by (rule set_take_subset)
  then show ?thesis by simp
qed

lemma distinct_shuffledSellingPoints:
  "distinct sps \<Longrightarrow> distinct (shuffledSellingPoints d sps)"
  by (simp add: shuffledSellingPoints_def)

lemma butlast_tl_drawClips [simp]:
  "butlast (tl (drawClips hooks sps ctas d)) = shuffledSellingPoints d sps"
  by (simp add: drawClips_def butlast_append)

lemma shape_drawClips:
  fixes clips :: "'d VideoClip list"
  defines "hooks \<equiv> clipsOfType Hook clips"
    and "sps \<equiv> clipsOfType SellingPoint clips"
    and "ctas \<equiv> clipsOfType Cta clips"
  assumes "hooks \<noteq> []" "ctas \<noteq> []"
  shows "shape (min 1 (length sps)) (min 3 (length sps)) (drawClips hooks sps ctas d)"
proof -
  have h: "clip_type (pick (hookDraw d) hooks) = Hook"
    using pick_mem [OF assms(4)] clipsOfType_type unfolding hooks_def by blast
  have c: "clip_type (pick (ctaDraw d) ctas) = Cta"
    using pick_mem [OF assms(5)] clipsOfType_type unfolding ctas_def by blast
  have m: "list_all (\<lambda>clip. clip_type clip = SellingPoint) (shuffledSellingPoints d sps)"
    using set_shuffledSellingPoints [of d sps] clipsOfType_type
    unfolding sps_def list_all_iff by blast
  have lo: "min 1 (length sps) \<le> length (shuffledSellingPoints d sps)"
    unfolding length_shuffledSellingPoints by simp
  have hi: "length (shuffledSellingPoints d sps) \<le> min 3 (length sps)"
  proof -
    have "countDraw d mod 3 + 1 \<le> 3" by simp
    then show ?thesis unfolding length_shuffledSellingPoints by linarith
  qed
  have hd: "hd (drawClips hooks sps ctas d) = pick (hookDraw d) hooks"
    and last: "last (drawClips hooks sps ctas d) = pick (ctaDraw d) ctas"
    and len: "2 \<le> length (drawClips hooks sps ctas d)"
    by (simp_all add: drawClips_def)
  show ?thesis
    unfolding shape_def butlast_tl_drawClips hd last using h c m lo hi len by simp
qed

lemma distinct_drawClips:
  fixes clips :: "'d VideoClip list"
  defines "hooks \<equiv> clipsOfType Hook clips"
    and "sps \<equiv> clipsOfType SellingPoint clips"
    and "ctas \<equiv> clipsOfType Cta clips"
  assumes "hooks \<noteq> []" "ctas \<noteq> []" "distinct clips"
  shows "distinct (drawClips hooks sps ctas d)"
proof -
  have h: "clip_type (pick (hookDraw d) hooks) = Hook"
    using pick_mem [OF assms(4)] clipsOfType_type unfolding hooks_def by blast
  have c: "clip_type (pick (ctaDraw d) ctas) = Cta"
    using pick_mem [OF assms(5)] clipsOfType_type unfolding ctas_def by blast
  have m: "\<forall>clip\<in>set (shuffledSellingPoints d sps). clip_type clip = SellingPoint"
    using set_shuffledSellingPoints [of d sps] clipsOfType_type
    unfolding sps_def by blast
  have dm: "distinct (shuffledSellingPoints d sps)"
    unfolding sps_def by (intro distinct_shuffledSellingPoints distinct_clipsOfType assms(6))
  from h c have "pick (hookDraw d) hooks \<noteq> pick (ctaDraw d) ctas" by auto
  moreover from h m have "pick (hookDraw d) hooks \<notin> set (shuffledSellingPoints d sps)" by auto
  moreover from c m have "pick (ctaDraw d) ctas \<notin> set (shuffledSellingPoints d sps)" by auto
  ultimately show ?thesis using dm by (simp add: drawClips_def)
qed

lemma seq_clips_newSequence:
  "seq_clips (newSequence hooks sps ctas k d) = drawClips hooks sps ctas d"
  by (simp add: newSequence_def)

lemma seq_duration_newSequence:
  "seq_duration (newSequence hooks sps ctas k d)
     = foldl (+) 0 (map clip_duration (seq_clips (newSequence hooks sps ctas k d)))"
  by (simp add: newSequence_def totalDuration_def foldl_map)

lemma generated_sequence:
  fixes st :: "('d::{plus,zero}) state"
  assumes "hooksOf st \<noteq> []" "ctasOf st \<noteq> []" "generateSequences rnd st = Some st'"
    and "s \<in> set (sequences st')"
  shows "\<exists>k d. s = newSequence (hooksOf st) (sellingPointsOf st) (ctasOf st) k d"
  using generate_loop_members [OF generateSequences_Some [OF assms(1-3)]] assms(4) by auto

subsection \<open>Runs that never return\<close>

text \<open>A random source whose draws all have one key cannot reach a target of two.\<close>

lemma card_drawnKeys_same:
  assumes "\<And>j. drawKey hooks sps ctas (rnd j) = k"
  shows "card (drawnKeys hooks sps ctas rnd i m) \<le> 1"
proof -
  have "drawnKeys hooks sps ctas rnd i m \<subseteq> {k}"
    using assms by (auto simp: drawnKeys_def)
  then have "card (drawnKeys hooks sps ctas rnd i m) \<le> card {k}"
    by (intro card_mono) simp_all
  then show ?thesis by simp
qed

lemma generateSequences_same_key:
  fixes st :: "('d::{plus,zero}) state"
  assumes "hooksOf st \<noteq> []" "ctasOf st \<noteq> []"
    and "\<And>j. drawKey (hooksOf st) (sellingPointsOf st) (ctasOf st) (rnd j) = k"
    and "2 \<le> numSequences (hooksOf st) (sellingPointsOf st) (ctasOf st)"
  shows "generateSequences rnd st = None"
proof -
  have one: "card (drawnKeys (hooksOf st) (sellingPointsOf st) (ctasOf st) rnd 0 m) \<le> 1" for m
    by (rule card_drawnKeys_same) (rule assms(3))
  have "\<not> (\<exists>m. numSequences (hooksOf st) (sellingPointsOf st) (ctasOf st)
              \<le> card (drawnKeys (hooksOf st) (sellingPointsOf st) (ctasOf st) rnd 0 m))"
  proof
    assume "\<exists>m. numSequences (hooksOf st) (sellingPointsOf st) (ctasOf st)
              \<le> card (drawnKeys (hooksOf st) (sellingPointsOf st) (ctasOf st) rnd 0 m)"
    then obtain m where "numSequences (hooksOf st) (sellingPointsOf st) (ctasOf st)
              \<le> card (drawnKeys (hooksOf st) (sellingPointsOf st) (ctasOf st) rnd 0 m)" ..
    with one [of m] assms(4) show False by linarith
  qed
  then have "\<not> (\<exists>res. generate_loop (hooksOf st) (sellingPointsOf st) (ctasOf st)
              (numSequences (hooksOf st) (sellingPointsOf st) (ctasOf st)) rnd 0 {} [] = Some res)"
    unfolding generate_loop_returns_iff .
  then show ?thesis
    unfolding generateSequences_loop [OF assms(1,2)] by (auto split: option.splits)
qed

lemma drawKey_one_of_each: "drawKey [h] [s] [c] d = combinationKey h [s] c"
  by (simp add: drawKey_def pick_def shuffledSellingPoints_def numSellingPoints_def Let_def)


subsection \<open>The scenario of the specification\<close>

lemma scenario_generated: "generateSequences countingDraw scenario = Some generated"
  unfolding generated_def by code_simp

lemma scenario_parts:
  "hooksOf scenario \<noteq> []" "ctasOf scenario \<noteq> []" "length (sellingPointsOf scenario) = 3"
  by code_simp+

lemma generated_nth: "i < 10 \<Longrightarrow> sequences generated ! i \<in> set (sequences generated)"
proof -
  have "length (sequences generated) = 10" unfolding generated_def by code_simp
  then show "i < 10 \<Longrightarrow> sequences generated ! i \<in> set (sequences generated)" by simp
qed

section \<open>Properties of the generator and of the catalog\<close>

text \<open>
  When the draws reach the target within some number of passes, the generator returns
  exactly \<open>min(10, maxCombinations)\<close> sequences, at least one, and no two of them have
  the same dedup key (hook id, sorted selling-point ids, CTA id).
\<close>

lemma generate_count_and_keys:
  fixes st :: "('d::{plus,zero}) state"
  assumes "hooksOf st \<noteq> []" and "ctasOf st \<noteq> []"
    and "numSequences (hooksOf st) (sellingPointsOf st) (ctasOf st)
           \<le> card (drawnKeys (hooksOf st) (sellingPointsOf st) (ctasOf st) rnd 0 m)"
  shows "\<exists>st'. generateSequences rnd st = Some st' \<and>
           1 \<le> length (sequences st') \<and>
           length (sequences st')
             = min 10 (maxCombinations (hooksOf st) (sellingPointsOf st) (ctasOf st)) \<and>
           distinct (map dedupKey (sequences st'))"
proof -
  let ?n = "numSequences (hooksOf st) (sellingPointsOf st) (ctasOf st)"
  from assms(3) generate_loop_returns_iff [of "hooksOf st" "sellingPointsOf st" "ctasOf st" ?n rnd]
  obtain res where res: "generate_loop (hooksOf st) (sellingPointsOf st) (ctasOf st) ?n rnd 0 {} [] = Some res"
    by blast
  from generate_loop_length [OF res] have len: "length res = ?n" by simp
  from generate_loop_keys [OF res] have "distinct (map seqKey res)" by simp
  then have keys: "distinct (map dedupKey res)" by (rule distinct_dedupKey)
  from numSequences_pos [OF assms(1,2)] len have pos: "1 \<le> length res" by simp
  from res have "generateSequences rnd st =
      Some (emit (ToastSuccess (''Generated '' @ string_of_nat (length res) @ '' unique sequences!''))
              (st\<lparr>sequences := res, loading := False\<rparr>))"
    by (simp add: generateSequences_loop [OF assms(1,2)])
  with len keys pos show ?thesis by (simp add: numSequences_def)
qed

text \<open>
  Claim C1 at a failing input. The catalog has one hook, one selling point and one CTA.
  \<open>maxCombinations\<close> is two, so the loop wants two sequences; but the one selling
  point is always taken, every draw builds the key of the same three clips, and the
  second sequence never comes: whatever the random source, \<open>generateSequences\<close> does
  not return, where the claim promises one or two sequences.
\<close>

theorem generate_hangs_one_of_each:
  "generateSequences rnd (studio [hookA, sp1, ctaA]) = None"
proof -
  have h: "hooksOf (studio [hookA, sp1, ctaA]) = [hookA]"
    and s: "sellingPointsOf (studio [hookA, sp1, ctaA]) = [sp1]"
    and c: "ctasOf (studio [hookA, sp1, ctaA]) = [ctaA]"
    by (simp_all add: studio_def clipsOfType_def hookA_def sp1_def ctaA_def)
  show ?thesis
  proof (rule generateSequences_same_key [where k = "combinationKey hookA [sp1] ctaA"])
    show "hooksOf (studio [hookA, sp1, ctaA]) \<noteq> []" by (simp add: h)
    show "ctasOf (studio [hookA, sp1, ctaA]) \<noteq> []" by (simp add: c)
    show "drawKey (hooksOf (studio [hookA, sp1, ctaA])) (sellingPointsOf (studio [hookA, sp1, ctaA]))
            (ctasOf (studio [hookA, sp1, ctaA])) (rnd j) = combinationKey hookA [sp1] ctaA" for j
      unfolding h s c by (rule drawKey_one_of_each)
    show "2 \<le> numSequences (hooksOf (studio [hookA, sp1, ctaA])) (sellingPointsOf (studio [hookA, sp1, ctaA]))
            (ctasOf (studio [hookA, sp1, ctaA]))"
      unfolding h s c by (simp add: numSequences_def maxCombinations_def)
  qed
qed


text \<open>
  Claim C2, as the code has it. The catalog has a hook and a CTA. For every random source
  whose first \<open>m\<close> draws build \<open>min(10, maxCombinations)\<close> different keys,
  \<open>generateSequences\<close> returns, and it has made at most \<open>m\<close> passes: every random
  source with the same first \<open>m\<close> draws gives the same result. The claim as stated
  promises the return for every random source; the counterexample is a source that
  repeats one draw, on a catalog of two hooks and one CTA.
\<close>

theorem generate_returns_within:
  fixes st :: "('d::{plus,zero}) state"
  assumes "hooksOf st \<noteq> []" and "ctasOf st \<noteq> []"
    and "numSequences (hooksOf st) (sellingPointsOf st) (ctasOf st)
           \<le> card (drawnKeys (hooksOf st) (sellingPointsOf st) (ctasOf st) rnd 0 m)"
  shows "\<exists>st'. generateSequences rnd st = Some st' \<and>
           (\<forall>rnd'. (\<forall>j < m. rnd' j = rnd j) \<longrightarrow> generateSequences rnd' st = Some st')"
proof -
  let ?n = "numSequences (hooksOf st) (sellingPointsOf st) (ctasOf st)"
  let ?loop = "\<lambda>r. generate_loop (hooksOf st) (sellingPointsOf st) (ctasOf st) ?n r 0 {} []"
  from assms(3) generate_loop_returns_iff [of "hooksOf st" "sellingPointsOf st" "ctasOf st" ?n rnd]
  obtain res where res: "?loop rnd = Some res" by blast
  have same: "?loop rnd' = ?loop rnd" if "\<forall>j < m. rnd' j = rnd j" for rnd'
    using that assms(3) by (intro generate_loop_reads [where m = m]) simp_all
  have "generateSequences rnd' st = generateSequences rnd st" if "\<forall>j < m. rnd' j = rnd j" for rnd'
    unfolding generateSequences_loop [OF assms(1,2)] same [OF that] ..
  moreover from res obtain st' where "generateSequences rnd st = Some st'"
    unfolding generateSequences_loop [OF assms(1,2)] by simp
  ultimately show ?thesis by auto
qed

theorem generate_returns_within_witness:
  "\<exists>st'. generateSequences countingDraw (studio [hookA, hookB, ctaA]) = Some st' \<and>
         generateSequences countingThenSame (studio [hookA, hookB, ctaA]) = Some st'"
proof -
  let ?st = "studio [hookA, hookB, ctaA]"
  have h: "hooksOf ?st \<noteq> []" and c: "ctasOf ?st \<noteq> []" by code_simp+
  have k: "numSequences (hooksOf ?st) (sellingPointsOf ?st) (ctasOf ?st)
            \<le> card (drawnKeys (hooksOf ?st) (sellingPointsOf ?st) (ctasOf ?st) countingDraw 0 2)"
    by code_simp
  have a: "\<forall>j < 2. countingThenSame j = countingDraw j" by (simp add: countingThenSame_def)
  from generate_returns_within [OF h c k] a show ?thesis by blast
qed


theorem generate_returns_counterexample:
  "generateSequences sameDraw (studio [hookA, hookB, ctaA]) = None"
proof -
  have h: "hooksOf (studio [hookA, hookB, ctaA]) = [hookA, hookB]"
    and s: "sellingPointsOf (studio [hookA, hookB, ctaA]) = []"
    and c: "ctasOf (studio [hookA, hookB, ctaA]) = [ctaA]"
    by (simp_all add: studio_def clipsOfType_def hookA_def hookB_def ctaA_def)
  show ?thesis
  proof (rule generateSequences_same_key [where k = "drawKey [hookA, hookB] [] [ctaA] (sameDraw 0)"])
    show "hooksOf (studio [hookA, hookB, ctaA]) \<noteq> []" by (simp add: h)
    show "ctasOf (studio [hookA, hookB, ctaA]) \<noteq> []" by (simp add: c)
    show "drawKey (hooksOf (studio [hookA, hookB, ctaA])) (sellingPointsOf (studio [hookA, hookB, ctaA]))
            (ctasOf (studio [hookA, hookB, ctaA])) (sameDraw j) = drawKey [hookA, hookB] [] [ctaA] (sameDraw 0)" for j
      unfolding h s c by (simp add: sameDraw_def)
    show "2 \<le> numSequences (hooksOf (studio [hookA, hookB, ctaA])) (sellingPointsOf (studio [hookA, hookB, ctaA]))
            (ctasOf (studio [hookA, hookB, ctaA]))"
      unfolding h s c by (simp add: numSequences_def maxCombinations_def)
  qed
qed

text \<open>
  Claim C3, as the code has it. Every sequence that \<open>generateSequences\<close> produces starts
  with a hook, ends with a CTA and has only selling points between them: between
  \<open>min(1, n)\<close> and \<open>min(3, n)\<close> of them, where \<open>n\<close> is the number of selling points
  in the catalog. So one to three when the catalog has a selling point, and none when
  it has none: the counterexample is the catalog of one hook and one CTA.
\<close>

theorem generated_shape:
  fixes st :: "('d::{plus,zero}) state"
  assumes "hooksOf st \<noteq> []" and "ctasOf st \<noteq> []"
    and "generateSequences rnd st = Some st'"
    and "s \<in> set (sequences st')"
  shows "shape (min 1 (length (sellingPointsOf st))) (min 3 (length (sellingPointsOf st)))
           (seq_clips s)"
proof -
  from generated_sequence [OF assms] obtain k d
    where "s = newSequence (hooksOf st) (sellingPointsOf st) (ctasOf st) k d" by blast
  then have "seq_clips s = drawClips (hooksOf st) (sellingPointsOf st) (ctasOf st) d"
    by (simp only: seq_clips_newSequence)
  with shape_drawClips [OF assms(1,2)] show ?thesis by simp
qed

theorem generated_shape_witness:
  "generateSequences countingDraw scenario = Some generated \<and>
   sequences generated ! 8 \<in> set (sequences generated) \<and>
   shape 1 3 (seq_clips (sequences generated ! 8))"
proof -
  have mem: "sequences generated ! 8 \<in> set (sequences generated)" by (rule generated_nth) simp
  from generated_shape [OF scenario_parts(1,2) scenario_generated mem]
  show ?thesis using scenario_generated mem by (simp add: scenario_parts(3))
qed

theorem generated_shape_counterexample:
  "map_option (map (shape 1 3 \<circ> seq_clips) \<circ> sequences)
     (generateSequences countingDraw (studio [hookA, ctaA])) = Some [False]"
  by code_simp

text \<open>
  The duration of a produced sequence is the left-to-right sum of the durations of its
  clips from zero, in the addition of the number type, whatever that addition is.
\<close>

lemma generated_duration_fold:
  fixes st :: "('d::{plus,zero}) state"
  assumes "hooksOf st \<noteq> []" and "ctasOf st \<noteq> []"
    and "generateSequences rnd st = Some st'"
    and "s \<in> set (sequences st')"
  shows "seq_duration s = foldl (+) 0 (map clip_duration (seq_clips s))"
proof -
  from generated_sequence [OF assms] obtain k d
    where "s = newSequence (hooksOf st) (sellingPointsOf st) (ctasOf st) k d" by blast
  then show ?thesis by (simp only: seq_duration_newSequence)
qed

text \<open>
  Claim C8, as the code has it. The duration of every sequence that \<open>generateSequences\<close>
  produces is the sum of the durations of its clips added left to right from zero in
  double arithmetic, every addition rounded to the nearest double; it is the exact sum
  when the durations are finite and no addition rounds. The counterexample is a hook of
  0.7 seconds and a CTA of 0.2 seconds: the duration is 0.8999999999999999, not the
  exact sum of the two doubles.
\<close>

theorem generated_duration:
  fixes st :: "double state"
  assumes "hooksOf st \<noteq> []" and "ctasOf st \<noteq> []"
    and "generateSequences rnd st = Some st'"
    and "s \<in> set (sequences st')"
  shows "seq_duration s = foldl (+) 0 (map clip_duration (seq_clips s)) \<and>
         (\<forall>xs. map clip_duration (seq_clips s) = map Fin xs \<and> no_rounding 0 xs \<longrightarrow>
               seq_duration s = Fin (sum_list xs))"
proof -
  note f = generated_duration_fold [OF assms]
  have "seq_duration s = Fin (sum_list xs)"
    if "map clip_duration (seq_clips s) = map Fin xs" "no_rounding 0 xs" for xs
    using no_rounding_foldl [OF that(2)] unfolding f that(1) zero_double_def by simp
  with f show ?thesis by blast
qed

theorem generated_duration_witness:
  "generateSequences countingDraw scenario = Some generated \<and>
   sequences generated ! 8 \<in> set (sequences generated) \<and>
   map clip_duration (seq_clips (sequences generated ! 8)) = map Fin [5 / 2, 2, 5 / 2, 3, 2] \<and>
   no_rounding 0 [5 / 2, 2, 5 / 2, 3, 2] \<and>
   seq_duration (sequences generated ! 8) = Fin 12"
proof -
  have mem: "sequences generated ! 8 \<in> set (sequences generated)" by (rule generated_nth) simp
  have d: "map clip_duration (seq_clips (sequences generated ! 8)) = map Fin [5 / 2, 2, 5 / 2, 3, 2]"
    unfolding generated_def by code_simp
  have n: "no_rounding 0 [5 / 2, 2, 5 / 2, 3, 2]" by code_simp
  from generated_duration [OF scenario_parts(1,2) scenario_generated mem] d n
  have "seq_duration (sequences generated ! 8) = Fin (sum_list [5 / 2, 2, 5 / 2, 3, 2])" by blast
  then have "seq_duration (sequences generated ! 8) = Fin 12" by simp
  with scenario_generated mem d n show ?thesis by blast
qed

theorem generated_duration_counterexample:
  "map_option (map durationIsExactSum \<circ> sequences)
     (generateSequences countingDraw (studio [hookTenths, ctaTenths])) = Some [False] \<and>
   map_option (map seq_duration \<circ> sequences)
     (generateSequences countingDraw (studio [hookTenths, ctaTenths]))
     = Some [round_double (8999999999999999 / 10 ^ 16)]"
  by code_simp


text \<open>
  Claim C10. When the catalog lists no clip twice, no clip appears twice in a sequence
  that \<open>generateSequences\<close> produces: hook, selling points and CTA come from
  partitions of different types, and the selling points are a prefix of a
  rearrangement of their partition.
\<close>

theorem generated_distinct:
  fixes st :: "('d::{plus,zero}) state"
  assumes "distinct (availableClips st)"
    and "hooksOf st \<noteq> []" and "ctasOf st \<noteq> []"
    and "generateSequences rnd st = Some st'"
    and "s \<in> set (sequences st')"
  shows "distinct (seq_clips s)"
proof -
  from generated_sequence [OF assms(2-5)] obtain k d
    where "s = newSequence (hooksOf st) (sellingPointsOf st) (ctasOf st) k d" by blast
  then have "seq_clips s = drawClips (hooksOf st) (sellingPointsOf st) (ctasOf st) d"
    by (simp only: seq_clips_newSequence)
  with distinct_drawClips [OF assms(2,3,1)] show ?thesis by simp
qed

theorem generated_distinct_witness:
  "distinct (availableClips scenario) \<and>
   generateSequences countingDraw scenario = Some generated \<and>
   sequences generated ! 8 \<in> set (sequences generated) \<and>
   distinct (seq_clips (sequences generated ! 8))"
proof -
  have mem: "sequences generated ! 8 \<in> set (sequences generated)" by (rule generated_nth) simp
  have d: "distinct (availableClips scenario)" by code_simp
  from generated_distinct [OF d scenario_parts(1,2) scenario_generated mem]
  show ?thesis using scenario_generated mem d by simp
qed

text \<open>
  Claim C4. When the catalog has no hook or no CTA, \<open>generateSequences\<close> returns at once
  with the state as it was but for one error toast: the sequence list, the catalog and
  the other fields are unchanged, and no sequence is produced.
\<close>

theorem generate_insufficient:
  fixes st :: "('d::{plus,zero}) state"
  assumes "hooksOf st = [] \<or> ctasOf st = []"
  shows "generateSequences rnd st =
           Some (st\<lparr>events := events st @
                    [ToastError (if availableClips st = []
                                 then ''Please upload some video clips first''
                                 else ''You need at least one hook and one CTA clip'')]\<rparr>)"
  using assms by (auto simp: generateSequences_def Let_def emit_def)

theorem generate_insufficient_witness:
  "generateSequences countingDraw (studio [sp1, ctaA]) =
     Some ((studio [sp1, ctaA])\<lparr>events := [ToastError ''You need at least one hook and one CTA clip'']\<rparr>)"
proof -
  have h: "hooksOf (studio [sp1, ctaA]) = [] \<or> ctasOf (studio [sp1, ctaA]) = []" by code_simp
  have e: "events (studio [sp1, ctaA]) = []" and a: "availableClips (studio [sp1, ctaA]) \<noteq> []"
    by (simp_all add: studio_def)
  from generate_insufficient [OF h, of countingDraw] show ?thesis by (simp add: e a)
qed

text \<open>
  Claim C9. \<open>updateClipType\<close> keeps the length and the order of the catalog; a clip
  whose id matches has its type replaced and its other fields kept, every other clip is
  unchanged; an absent id changes nothing; the generated sequences, with their clips
  and durations, are unchanged; and the retagged clip is in the partition of its new
  type, which is what the next generation reads.
\<close>

theorem updateClipType_frame:
  "length (availableClips (updateClipType clipId newType st)) = length (availableClips st) \<and>
   (\<forall>i < length (availableClips st).
      availableClips (updateClipType clipId newType st) ! i =
        (if clip_id (availableClips st ! i) = clipId
         then (availableClips st ! i)\<lparr>clip_type := newType\<rparr>
         else availableClips st ! i)) \<and>
   (clipId \<notin> clip_id ` set (availableClips st) \<longrightarrow> updateClipType clipId newType st = st) \<and>
   sequences (updateClipType clipId newType st) = sequences st \<and>
   (\<forall>clip \<in> set (availableClips st). clip_id clip = clipId \<longrightarrow>
      clip\<lparr>clip_type := newType\<rparr>
        \<in> set (clipsOfType newType (availableClips (updateClipType clipId newType st))))"
proof -
  have "clipId \<notin> clip_id ` set (availableClips st) \<Longrightarrow>
        map (\<lambda>clip. if clip_id clip = clipId then clip\<lparr>clip_type := newType\<rparr> else clip)
          (availableClips st) = availableClips st"
    by (intro map_idI) auto
  moreover have "clip\<lparr>clip_type := newType\<rparr>
        \<in> set (clipsOfType newType (availableClips (updateClipType clipId newType st)))"
    if "clip \<in> set (availableClips st)" "clip_id clip = clipId" for clip
    using that by (force simp: updateClipType_def clipsOfType_def)
  ultimately show ?thesis by (simp add: updateClipType_def)
qed

theorem updateClipType_frame_witness:
  "availableClips (updateClipType ''sp1'' Hook generated) ! 2 = sp1\<lparr>clip_type := Hook\<rparr> \<and>
   availableClips (updateClipType ''sp1'' Hook generated) ! 0 = hookA \<and>
   sp1\<lparr>clip_type := Hook\<rparr> \<in> set (hooksOf (updateClipType ''sp1'' Hook generated)) \<and>
   updateClipType ''sp9'' Hook generated = generated \<and>
   sequences (updateClipType ''sp1'' Hook generated) = sequences generated"
proof -
  have clips: "availableClips generated = [hookA, hookB, sp1, sp2, sp3, ctaA, ctaB]"
    unfolding generated_def by code_simp
  have ids: "clip_id hookA \<noteq> ''sp1''" "clip_id sp1 = ''sp1''"
    "''sp9'' \<notin> clip_id ` set (availableClips generated)"
    unfolding clips by (simp_all add: hookA_def hookB_def sp1_def sp2_def sp3_def ctaA_def ctaB_def)
  have "sp1 \<in> set (availableClips generated)" unfolding clips by simp
  with updateClipType_frame [of "''sp1''" Hook generated] updateClipType_frame [of "''sp9''" Hook generated]
  show ?thesis using ids by (simp add: clips)
qed

section \<open>Properties of the export\<close>

text \<open>
  An export with an index changes neither the readiness nor the downloads, and invokes
  the engine once when it returns, at most once when it throws.
\<close>

lemma write_inputs_execs:
  "execs (snd (write_inputs i clips l eng)) = execs eng"
  by (induction clips arbitrary: i l eng) (simp_all add: writeFile_def split: option.splits)

lemma exec_execs:
  "exec run args eng = (r, eng') \<Longrightarrow> length (execs eng') = length (execs eng) + 1"
  by (auto simp: exec_def split: option.splits)

lemma is_download_emit_toast [simp]:
  "filter is_download (events (emit (ToastSuccess m) st)) = filter is_download (events st)"
  "filter is_download (events (emit (ToastError m) st)) = filter is_download (events st)"
  "filter is_download (events (emit (ConsoleError m e) st)) = filter is_download (events st)"
  by (simp_all add: emit_def)

lemma export_try_batch:
  assumes "export_try run s (Some i) eng st = (r, st1)"
  shows "ffmpegLoading st1 = ffmpegLoading st \<and> ffmpeg st1 \<noteq> None \<and>
         filter is_download (events st1) = filter is_download (events st) \<and>
         (case r of
            Inr v \<Rightarrow> v \<noteq> None \<and> execCount st1 = length (execs eng) + 1
          | Inl e \<Rightarrow> execCount st1 \<le> length (execs eng) + 1)"
proof -
  define st2 where "st2 = (if not_index (Some i)
      then emit (ToastSuccess ''Starting export...'') (st\<lparr>loading := True\<rparr>)
      else st\<lparr>loading := True\<rparr>)"
  have p: "ffmpegLoading st2 = ffmpegLoading st"
    "filter is_download (events st2) = filter is_download (events st)"
    "execCount (st2\<lparr>ffmpeg := Some e\<rparr>) = length (execs e)" for e
    by (simp_all add: st2_def emit_def execCount_def)
  obtain r0 eng1 where w: "write_inputs 0 (seq_clips s) [] eng = (r0, eng1)"
    by (cases "write_inputs 0 (seq_clips s) [] eng")
  from write_inputs_execs [of 0 "seq_clips s" "[]" eng] w have e1: "execs eng1 = execs eng" by simp
  show ?thesis
  proof (cases r0)
    case (Inl e)
    with assms w have "r = Inl e" "st1 = st2\<lparr>ffmpeg := Some eng1\<rparr>"
      by (simp_all add: export_try_def Let_def st2_def)
    then show ?thesis by (simp add: p e1)
  next
    case (Inr l)
    obtain r2 eng2 where x: "exec run concat_args (writeFile ''list.txt'' (map of_char l) eng1) = (r2, eng2)"
      by (cases "exec run concat_args (writeFile ''list.txt'' (map of_char l) eng1)")
    from exec_execs [OF x] e1 have e2: "length (execs eng2) = length (execs eng) + 1"
      by (simp add: writeFile_def)
    show ?thesis
    proof (cases r2)
      case (Inl e)
      with assms w Inr x have "r = Inl e" "st1 = st2\<lparr>ffmpeg := Some eng2\<rparr>"
        by (simp_all add: export_try_def Let_def st2_def)
      then show ?thesis by (simp add: p e2)
    next
      case u: (Inr u)
      show ?thesis
      proof (cases "readFile ''output.mp4'' eng2")
        case None
        with assms w Inr x u have "r = Inl (EngineError ''readFile'')" "st1 = st2\<lparr>ffmpeg := Some eng2\<rparr>"
          by (simp_all add: export_try_def Let_def st2_def)
        then show ?thesis by (simp add: p e2)
      next
        case (Some outputData)
        with assms w Inr x u
        have "r = Inr (Some (''restitched '' @ string_of_nat (i + 1) @ ''.mp4'', outputData))"
          "st1 = st2\<lparr>ffmpeg := Some eng2\<rparr>"
          by (simp_all add: export_try_def Let_def st2_def)
        then show ?thesis by (simp add: p e2)
      qed
    qed
  qed
qed

lemma exportSequence_batch:
  assumes "ready st" and "exportSequence run s (Some i) st = (r, st1)"
  shows "ready st1 \<and> filter is_download (events st1) = filter is_download (events st) \<and>
         (case r of
            Inr v \<Rightarrow> v \<noteq> None \<and> execCount st1 = execCount st + 1
          | Inl e \<Rightarrow> execCount st1 \<le> execCount st + 1)"
proof -
  from assms(1) obtain eng where eng: "\<not> ffmpegLoading st" "ffmpeg st = Some eng"
    by (auto simp: ready_def)
  obtain r' st' where t: "export_try run s (Some i) eng st = (r', st')"
    by (cases "export_try run s (Some i) eng st")
  define st2 where "st2 = (case r' of
      Inl e \<Rightarrow> (let st'' = emit (ConsoleError ''Export error:'' e) st'
                in if not_index (Some i) then emit (ToastError ''Failed to export sequence'') st''
                   else st'')
    | Inr v \<Rightarrow> st')"
  have r: "r = r'" and st1: "st1 = (if not_index (Some i) then st2\<lparr>loading := False\<rparr> else st2)"
    using assms(2) eng t by (auto simp: exportSequence_def st2_def Let_def)
  have q: "ffmpegLoading st2 = ffmpegLoading st'" "ffmpeg st2 = ffmpeg st'"
    "filter is_download (events st2) = filter is_download (events st')"
    by (cases r'; simp add: st2_def emit_def Let_def)+
  have q1: "ffmpegLoading st1 = ffmpegLoading st'" "ffmpeg st1 = ffmpeg st'"
    "filter is_download (events st1) = filter is_download (events st')"
    using q by (simp_all add: st1)
  then have c: "execCount st1 = execCount st'" by (simp add: execCount_def)
  have e: "execCount st = length (execs eng)" using eng by (simp add: execCount_def)
  from export_try_batch [OF t] show ?thesis
    unfolding r ready_def q1 c e using eng(1) by simp
qed

text \<open>
  The batch loop: a run without error has invoked the engine once per sequence; a run
  with an error splits the list at the first sequence whose export throws.
\<close>

lemma export_all_batch:
  assumes "ready st" and "export_all run seqs i archive st = (r, st1)"
  shows "ready st1 \<and> filter is_download (events st1) = filter is_download (events st) \<and>
         (case r of
            Inr archive' \<Rightarrow> execCount st1 = execCount st + length seqs
          | Inl e \<Rightarrow>
              (\<exists>before s after archive0 st0.
                 seqs = before @ s # after \<and>
                 export_all run before i archive st = (Inr archive0, st0) \<and>
                 execCount st0 = execCount st + length before \<and>
                 exportSequence run s (Some (i + length before)) st0 = (Inl e, st1)))"
  using assms
proof (induction seqs arbitrary: i archive st)
  case Nil
  then show ?case by auto
next
  case (Cons s rest)
  obtain r0 st0 where x: "exportSequence run s (Some i) st = (r0, st0)"
    by (cases "exportSequence run s (Some i) st")
  note b = exportSequence_batch [OF Cons.prems(1) x]
  show ?case
  proof (cases r0)
    case (Inl e)
    with Cons.prems(2) x have r: "r = Inl e" and st1: "st1 = st0" by simp_all
    from b Inl have rd: "ready st0"
      and ev: "filter is_download (events st0) = filter is_download (events st)" by simp_all
    have "s # rest = [] @ s # rest \<and> export_all run [] i archive st = (Inr archive, st) \<and>
        execCount st = execCount st + length ([] :: 'a Sequence list) \<and>
        exportSequence run s (Some (i + length ([] :: 'a Sequence list))) st = (Inl e, st0)"
      using x Inl by simp
    then have "\<exists>before s' after archive0 st0'.
        s # rest = before @ s' # after \<and>
        export_all run before i archive st = (Inr archive0, st0') \<and>
        execCount st0' = execCount st + length before \<and>
        exportSequence run s' (Some (i + length before)) st0' = (Inl e, st0)"
      by blast
    with rd ev show ?thesis unfolding r st1 sum.case by (intro conjI)
  next
    case (Inr v)
    with b obtain res where v: "v = Some res" by auto
    let ?archive = "AList.update (''restitched '' @ string_of_nat (i + 1) @ ''.mp4'') (snd res) archive"
    from Cons.prems(2) x Inr v have rest: "export_all run rest (Suc i) ?archive st0 = (r, st1)" by simp
    from b Inr have rd: "ready st0" and ev: "filter is_download (events st0) = filter is_download (events st)"
      and ex: "execCount st0 = execCount st + 1" by simp_all
    note ih = Cons.IH [OF rd rest]
    have step: "export_all run (s # before) i archive st = export_all run before (Suc i) ?archive st0" for before
      using x Inr v by simp
    show ?thesis
    proof (cases r)
      case (Inr archive')
      with ih ev ex show ?thesis by simp
    next
      case (Inl e)
      with ih obtain before s' after archive0 st0'
        where d: "rest = before @ s' # after"
          "export_all run before (Suc i) ?archive st0 = (Inr archive0, st0')"
          "execCount st0' = execCount st0 + length before"
          "exportSequence run s' (Some (Suc i + length before)) st0' = (Inl e, st1)"
        by auto
      have "s # rest = (s # before) @ s' # after \<and>
            export_all run (s # before) i archive st = (Inr archive0, st0') \<and>
            execCount st0' = execCount st + length (s # before) \<and>
            exportSequence run s' (Some (i + length (s # before))) st0' = (Inl e, st1)"
        using d ex step by simp
      then have "\<exists>before s' after archive0 st0'.
            s # rest = before @ s' # after \<and>
            export_all run before i archive st = (Inr archive0, st0') \<and>
            execCount st0' = execCount st + length before \<and>
            exportSequence run s' (Some (i + length before)) st0' = (Inl e, st1)"
        by blast
      moreover from ih have "ready st1"
        and "filter is_download (events st1) = filter is_download (events st0)" by simp_all
      ultimately show ?thesis unfolding Inl sum.case using ev by (intro conjI) simp_all
    qed
  qed
qed

lemma batch_start_ready:
  "ready st \<Longrightarrow> ready (batch_start st)"
  "execCount (batch_start st) = execCount st"
  "filter is_download (events (batch_start st)) = filter is_download (events st)"
  by (simp_all add: batch_start_def ready_def execCount_def emit_def)

lemma downloadAllSequences_batch:
  assumes "ready st" and "sequences st \<noteq> []"
  shows "downloadAllSequences run st =
     (case export_all run (sequences st) 0 [] (batch_start st) of
        (Inr archive, st2) \<Rightarrow>
          (emit (ToastSuccess ''All sequences downloaded!'')
             (emit (Download ''restitched-sequences.zip'' (Archive archive)) st2))
          \<lparr>loading := False\<rparr>
      | (Inl e, st2) \<Rightarrow>
          (emit (ToastError ''Failed to download all sequences'')
             (emit (ConsoleError ''Batch download error:'' e) st2))
          \<lparr>loading := False\<rparr>)"
  using assms by (auto simp: downloadAllSequences_def ready_def batch_start_def Let_def)

text \<open>
  Claim C7, as the code has it. With the engine ready and a non-empty sequence list,
  \<open>downloadAllSequences\<close> exports the sequences one after the other in list order.
  When every export succeeds, the engine has been invoked exactly once per sequence and
  one archive is delivered. Otherwise the loop stops at the first sequence whose export
  fails: the sequences before it were exported with one engine invocation each, nothing
  after it is exported, no archive or other download is delivered, and the report is the
  thrown error on the console and a fixed toast. The report does not name the failing
  sequence: the counterexample shows the same report for failures of the second and of
  the third sequence.
\<close>

theorem downloadAllSequences_abort_first:
  assumes "ready st" and "sequences st \<noteq> []"
  shows "case export_all run (sequences st) 0 [] (batch_start st) of
      (Inr archive, st1) \<Rightarrow>
         downloadAllSequences run st =
           (emit (ToastSuccess ''All sequences downloaded!'')
              (emit (Download ''restitched-sequences.zip'' (Archive archive)) st1))
           \<lparr>loading := False\<rparr> \<and>
         execCount st1 = execCount st + length (sequences st)
    | (Inl e, st1) \<Rightarrow>
         downloadAllSequences run st =
           (emit (ToastError ''Failed to download all sequences'')
              (emit (ConsoleError ''Batch download error:'' e) st1))
           \<lparr>loading := False\<rparr> \<and>
         filter is_download (events (downloadAllSequences run st)) = filter is_download (events st) \<and>
         (\<exists>before s after archive0 st0.
            sequences st = before @ s # after \<and>
            export_all run before 0 [] (batch_start st) = (Inr archive0, st0) \<and>
            execCount st0 = execCount st + length before \<and>
            exportSequence run s (Some (length before)) st0 = (Inl e, st1))"
proof -
  obtain r st1 where x: "export_all run (sequences st) 0 [] (batch_start st) = (r, st1)"
    by (cases "export_all run (sequences st) 0 [] (batch_start st)")
  note b = export_all_batch [OF batch_start_ready(1) [OF assms(1)] x]
  note d = downloadAllSequences_batch [OF assms, of run]
  show ?thesis
  proof (cases r)
    case (Inr archive)
    with b d x show ?thesis by (simp add: batch_start_ready(2))
  next
    case (Inl e)
    from d x Inl have o: "downloadAllSequences run st =
           (emit (ToastError ''Failed to download all sequences'')
              (emit (ConsoleError ''Batch download error:'' e) st1))
           \<lparr>loading := False\<rparr>" by simp
    from b have ev: "filter is_download (events st1) = filter is_download (events st)"
      by (simp add: batch_start_ready(3))
    have dl: "filter is_download (events (downloadAllSequences run st)) = filter is_download (events st)"
      unfolding o using ev by (simp add: emit_def)
    from b Inl have "\<exists>before s after archive0 st0.
            sequences st = before @ s # after \<and>
            export_all run before 0 [] (batch_start st) = (Inr archive0, st0) \<and>
            execCount st0 = execCount st + length before \<and>
            exportSequence run s (Some (length before)) st0 = (Inl e, st1)"
      by (simp add: batch_start_ready(2))
    with o dl show ?thesis unfolding x Inl by simp
  qed
qed

theorem downloadAllSequences_abort_first_witness:
  "downloadAllSequences stream_copy (gallery [seqGood, seqBad2]) =
     (emit (ToastError ''Failed to download all sequences'')
        (emit (ConsoleError ''Batch download error:'' (MissingSource ''CTA Lost''))
           (snd (export_all stream_copy [seqGood, seqBad2] 0 [] (batch_start (gallery [seqGood, seqBad2]))))))
     \<lparr>loading := False\<rparr> \<and>
   filter is_download (events (downloadAllSequences stream_copy (gallery [seqGood, seqBad2]))) = []"
proof -
  let ?st = "gallery [seqGood, seqBad2]"
  have r: "ready ?st" and s: "sequences ?st \<noteq> []" and e: "events ?st = []" by code_simp+
  have q: "sequences ?st = [seqGood, seqBad2]" by (simp add: gallery_def)
  have "fst (export_all stream_copy [seqGood, seqBad2] 0 [] (batch_start ?st)) = Inl (MissingSource ''CTA Lost'')"
    by code_simp
  then have x: "export_all stream_copy (sequences ?st) 0 [] (batch_start ?st) =
      (Inl (MissingSource ''CTA Lost''), snd (export_all stream_copy [seqGood, seqBad2] 0 [] (batch_start ?st)))"
    unfolding q by (metis prod.collapse)
  note t = downloadAllSequences_abort_first [OF r s, of stream_copy, unfolded x prod.case sum.case]
  from t have A: "downloadAllSequences stream_copy ?st =
     (emit (ToastError ''Failed to download all sequences'')
        (emit (ConsoleError ''Batch download error:'' (MissingSource ''CTA Lost''))
           (snd (export_all stream_copy [seqGood, seqBad2] 0 [] (batch_start ?st)))))
     \<lparr>loading := False\<rparr>" by (rule conjunct1)
  from t have "filter is_download (events (downloadAllSequences stream_copy ?st))
      = filter is_download (events ?st)" by blast
  then have B: "filter is_download (events (downloadAllSequences stream_copy ?st)) = []"
    by (simp only: e filter.simps)
  from A B show ?thesis by (rule conjI)
qed

theorem downloadAllSequences_report_counterexample:
  "events (downloadAllSequences stream_copy (gallery [seqGood, seqBad2])) =
     [ToastSuccess ''Starting batch download...'', ToastSuccess ''Starting export...'',
      ConsoleError ''Export error:'' (MissingSource ''CTA Lost''),
      ConsoleError ''Batch download error:'' (MissingSource ''CTA Lost''),
      ToastError ''Failed to download all sequences''] \<and>
   events (downloadAllSequences stream_copy (gallery [seqGood, seqGood2, seqBad3])) =
     [ToastSuccess ''Starting batch download...'', ToastSuccess ''Starting export...'',
      ConsoleError ''Export error:'' (MissingSource ''CTA Lost''),
      ConsoleError ''Batch download error:'' (MissingSource ''CTA Lost''),
      ToastError ''Failed to download all sequences'']"
  by code_simp

subsection \<open>What an export leaves in the working area\<close>

text \<open>A sequence with a clip without a file: the export throws the missing-source error.\<close>

lemma write_inputs_missing:
  assumes "\<exists>clip \<in> set clips. clip_file clip = None"
  shows "\<exists>clip \<in> set clips. clip_file clip = None \<and>
           fst (write_inputs i clips l eng) = Inl (MissingSource (clip_name clip))"
  using assms
proof (induction clips arbitrary: i l eng)
  case Nil
  then show ?case by simp
next
  case (Cons c clips)
  show ?case
  proof (cases "clip_file c")
    case None
    then show ?thesis by simp
  next
    case (Some inputData)
    with Cons.prems have "\<exists>clip \<in> set clips. clip_file clip = None" by auto
    from Cons.IH [OF this] Some show ?thesis by simp
  qed
qed

lemma write_inputs_files:
  assumes "\<forall>clip \<in> set clips. clip_file clip \<noteq> None"
  shows "\<exists>l' eng'. write_inputs i clips l eng = (Inr l', eng')"
  using assms
  by (induction clips arbitrary: i l eng) auto

lemma exportSequence_missing_source:
  assumes "ready st" and "\<exists>clip \<in> set (seq_clips s). clip_file clip = None"
  shows "\<exists>clip \<in> set (seq_clips s). clip_file clip = None \<and>
           fst (exportSequence run s index st) = Inl (MissingSource (clip_name clip))"
proof -
  from assms(1) obtain eng where eng: "\<not> ffmpegLoading st" "ffmpeg st = Some eng"
    by (auto simp: ready_def)
  from write_inputs_missing [OF assms(2), of 0 "[]" eng] obtain clip
    where c: "clip \<in> set (seq_clips s)" "clip_file clip = None"
      "fst (write_inputs 0 (seq_clips s) [] eng) = Inl (MissingSource (clip_name clip))" by blast
  obtain eng1 where "write_inputs 0 (seq_clips s) [] eng = (Inl (MissingSource (clip_name clip)), eng1)"
    using c(3) by (cases "write_inputs 0 (seq_clips s) [] eng") auto
  then have "fst (export_try run s index eng st) = Inl (MissingSource (clip_name clip))"
    by (simp add: export_try_def Let_def)
  then have "fst (exportSequence run s index st) = Inl (MissingSource (clip_name clip))"
    using eng by (auto simp: exportSequence_def Let_def split: prod.splits)
  with c show ?thesis by blast
qed

lemma write_inputs_grows:
  "fst ` set (files eng) \<subseteq> fst ` set (files (snd (write_inputs i clips l eng)))"
proof (induction clips arbitrary: i l eng)
  case Nil
  show ?case by simp
next
  case (Cons c clips)
  show ?case
  proof (cases "clip_file c")
    case None
    then show ?thesis by simp
  next
    case (Some inputData)
    have "fst ` set (files eng) \<subseteq> fst ` set (files (writeFile (input_name i) inputData eng))"
      by (auto simp: writeFile_def AList.dom_update)
    also note Cons.IH
    finally show ?thesis using Some by simp
  qed
qed

lemma exportSequence_engine:
  assumes "\<not> ffmpegLoading st" "ffmpeg st = Some eng"
  shows "ffmpeg (snd (exportSequence run s index st)) = ffmpeg (snd (export_try run s index eng st))"
  using assms
  by (cases "export_try run s index eng st")
     (auto simp: exportSequence_def Let_def emit_def split: sum.splits)

text \<open>
  A sequence whose first clip has a file and which has a clip without one: the export
  throws, and the first input is still in the working area afterwards.
\<close>

lemma exportSequence_missing_source_leak:
  assumes "ready st" and "seq_clips s = c # rest" and "clip_file c \<noteq> None"
    and "\<exists>clip \<in> set rest. clip_file clip = None"
  shows "\<exists>eng'. ffmpeg (snd (exportSequence run s index st)) = Some eng' \<and>
           input_name 0 \<in> fst ` set (files eng')"
proof -
  from assms(1) obtain eng where eng: "\<not> ffmpegLoading st" "ffmpeg st = Some eng"
    by (auto simp: ready_def)
  from assms(3) obtain inputData where f: "clip_file c = Some inputData" by auto
  let ?eng0 = "writeFile (input_name 0) inputData eng"
  let ?l0 = "[] @ ''file '' @ input_name 0 @ [CHR 0x0A]"
  have w: "write_inputs 0 (seq_clips s) [] eng = write_inputs (Suc 0) rest ?l0 ?eng0"
    unfolding assms(2) using f by simp
  from write_inputs_missing [OF assms(4), of "Suc 0" ?l0 ?eng0] obtain e eng1
    where r: "write_inputs (Suc 0) rest ?l0 ?eng0 = (Inl e, eng1)"
    by (cases "write_inputs (Suc 0) rest ?l0 ?eng0") auto
  have "input_name 0 \<in> fst ` set (files ?eng0)"
    by (simp add: writeFile_def AList.dom_update)
  with write_inputs_grows [of ?eng0 "Suc 0" rest ?l0] r
  have in1: "input_name 0 \<in> fst ` set (files eng1)" by auto
  have "ffmpeg (snd (export_try run s index eng st)) = Some eng1"
    unfolding export_try_def w r by (simp add: Let_def)
  with exportSequence_engine [OF eng, of run s index] in1 show ?thesis by simp
qed

text \<open>
  An export with an index that returns leaves the output in the working area: the result
  was read from it, and nothing is deleted before the \<open>return\<close>.
\<close>

lemma exportSequence_batch_leak:
  assumes "ready st" and "fst (exportSequence run s (Some i) st) = Inr v"
  shows "\<exists>eng'. ffmpeg (snd (exportSequence run s (Some i) st)) = Some eng' \<and>
           ''output.mp4'' \<in> fst ` set (files eng')"
proof -
  from assms(1) obtain eng where eng: "\<not> ffmpegLoading st" "ffmpeg st = Some eng"
    by (auto simp: ready_def)
  have "fst (exportSequence run s (Some i) st) = fst (export_try run s (Some i) eng st)"
    using eng by (cases "export_try run s (Some i) eng st") (simp add: exportSequence_def Let_def)
  with assms(2) have t: "fst (export_try run s (Some i) eng st) = Inr v" by simp
  obtain r0 eng1 where w: "write_inputs 0 (seq_clips s) [] eng = (r0, eng1)"
    by (cases "write_inputs 0 (seq_clips s) [] eng")
  from t w obtain l where r0: "r0 = Inr l"
    by (cases r0) (simp_all add: export_try_def Let_def)
  obtain r2 eng2 where x: "exec run concat_args (writeFile ''list.txt'' (map of_char l) eng1) = (r2, eng2)"
    by (cases "exec run concat_args (writeFile ''list.txt'' (map of_char l) eng1)")
  from t w r0 x obtain u where r2: "r2 = Inr u"
    by (cases r2) (simp_all add: export_try_def Let_def)
  from t w r0 x r2 obtain outputData where o: "readFile ''output.mp4'' eng2 = Some outputData"
    by (cases "readFile ''output.mp4'' eng2") (simp_all add: export_try_def Let_def)
  then have "''output.mp4'' \<in> fst ` set (files eng2)"
    by (auto simp: readFile_def dest: map_of_SomeD intro: rev_image_eqI)
  moreover have "ffmpeg (snd (export_try run s (Some i) eng st)) = Some eng2"
    using w r0 x r2 o by (simp add: export_try_def Let_def)
  ultimately show ?thesis using exportSequence_engine [OF eng, of run s "Some i"] by simp
qed

text \<open>
  Claim C5 at a failing input. An export with an index, as the batch makes it, returns
  the named buffer and leaves the three inputs, the manifest and the output in the
  working area: the \<open>return\<close> comes before the deletions.
\<close>

theorem exportSequence_returns_before_cleanup:
  "fst (exportSequence stream_copy seqGood (Some 0) (gallery [seqGood]))
     = Inr (Some (''restitched 1.mp4'', [1, 3, 6])) \<and>
   map_option (map fst \<circ> files) (ffmpeg (snd (exportSequence stream_copy seqGood (Some 0) (gallery [seqGood]))))
     = Some [''input0.mp4'', ''input1.mp4'', ''input2.mp4'', ''list.txt'', ''output.mp4'']"
  by code_simp

text \<open>The sibling path: without an index the deletions run, and nothing is returned.\<close>

lemma exportSequence_single_cleans_up:
  "fst (exportSequence stream_copy seqGood None (gallery [seqGood])) = Inr None \<and>
   map_option files (ffmpeg (snd (exportSequence stream_copy seqGood None (gallery [seqGood])))) = Some []"
  by code_simp

text \<open>
  Claim C6 at a failing input. The third clip of the sequence has no file: the export
  fails with the missing-source error, and the two inputs registered before stay in the
  working area.
\<close>

theorem exportSequence_missing_source_leaves_inputs:
  "fst (exportSequence stream_copy seqBad2 None (gallery [seqBad2])) = Inl (MissingSource ''CTA Lost'') \<and>
   map_option (map fst \<circ> files) (ffmpeg (snd (exportSequence stream_copy seqBad2 None (gallery [seqBad2]))))
     = Some [''input0.mp4'', ''input1.mp4'']"
  by code_simp

end
